theory Spec2Isabelle
  imports Main
begin

section \<open>Data model of \<^verbatim>\<open>scripts/core/EventSystem.js\<close>\<close>

text \<open>
  The class \<^verbatim>\<open>EventSystem\<close> is a publish/subscribe bus. Its fields become a record, its
  methods become functions that take the bus and return the changed bus. Three things of
  the JavaScript are made explicit:

  \<^item> \<^bold>\<open>Callbacks.\<close> A listener callback is a closure that may call back into the bus.
    The bus record cannot hold functions over itself, so a callback is a small program: a
    function from the dispatched event to a list of actions (calls of \<^verbatim>\<open>publish\<close>,
    \<^verbatim>\<open>subscribe\<close>, \<^verbatim>\<open>unsubscribe\<close>, a call of another callback, \<^verbatim>\<open>return\<close>,
    \<^verbatim>\<open>throw\<close>), together with a tag that stands for the identity of the function object
    (\<^verbatim>\<open>===\<close> on functions). Callbacks in this model reach the bus through these calls only
    and read nothing of it.
  \<^item> \<^bold>\<open>Identifiers and time.\<close> \<^verbatim>\<open>generateListenerId\<close> and \<^verbatim>\<open>generateEventId\<close> build
    an id from \<^verbatim>\<open>Date.now()\<close> and \<^verbatim>\<open>Math.random()\<close>; the model draws ids from a counter
    \<open>nextId\<close>, so ids are fresh, which is what the source intends (``unique''). The
    \<^verbatim>\<open>timestamp\<close> of an event and \<^verbatim>\<open>averageProcessingTime\<close> read the clock and are left
    out.
  \<^item> \<^bold>\<open>Array identity.\<close> \<^verbatim>\<open>this.eventHistory\<close> is a reference to an array that
    \<^verbatim>\<open>getEventHistory\<close> may hand out. The history is therefore held in a store of arrays
    (\<open>arrays\<close>, addresses are numbers), and the field \<open>eventHistory\<close> is an address.
    The queue and the listener arrays never leave the object and are plain lists.

  Invocations of callbacks are recorded in the ghost field \<open>calls\<close>, in the order in
  which they happen.
\<close>

type_synonym payload = int

record event =
  etype :: string
  edata :: payload
  eid :: nat

datatype fident = Fn nat | OnceWrapper nat

datatype action =
    Publish string payload bool
  | Subscribe string "callback option" int
  | Unsubscribe string target
  | Call callback
  | Return "payload option"
  | Throw
and callback = Callback (fid: fident) (body: "event \<Rightarrow> action list")
and target = ById nat | ByCallback callback

record listener =
  callback :: callback
  priority :: int
  lid :: nat

record perf =
  eventsProcessed :: nat
  eventsQueued :: nat
  eventsDropped :: nat

record bus =
  isInitialized :: bool
  listeners :: "string \<Rightarrow> listener list option"
  eventQueue :: "event list"
  maxQueueSize :: nat
  processingEvents :: bool
  eventHistory :: nat
  maxHistorySize :: nat
  performance :: perf
  eventTypes :: "string list"
  onEventProcessed :: "callback option"
  onEventDropped :: "callback option"
  arrays :: "nat \<Rightarrow> event list"
  nextAddr :: nat
  nextId :: nat
  calls :: "(fident \<times> event) list"

text \<open>A JavaScript call either returns a value or throws.\<close>

datatype 'a completion = Returns 'a | Throws

text \<open>\<^verbatim>\<open>subscribe\<close> and \<^verbatim>\<open>publish\<close> return \<^verbatim>\<open>false\<close> or an id.\<close>

datatype jsret = RFalse | RId nat

section \<open>Construction and configuration\<close>

definition history :: "bus \<Rightarrow> event list" where
  "history s = arrays s (eventHistory s)"

definition constructor :: bus where
  "constructor = \<lparr>
     isInitialized = False,
     listeners = (\<lambda>_. None),
     eventQueue = [],
     maxQueueSize = 1000,
     processingEvents = False,
     eventHistory = 0,
     maxHistorySize = 100,
     performance = \<lparr>eventsProcessed = 0, eventsQueued = 0, eventsDropped = 0\<rparr>,
     eventTypes = [],
     onEventProcessed = None,
     onEventDropped = None,
     arrays = (\<lambda>_. []),
     nextAddr = 1,
     nextId = 0,
     calls = []\<rparr>"

text \<open>\<^verbatim>\<open>config.maxQueueSize || 1000\<close>: an absent value and the value 0 both give the default.\<close>

definition orDefault :: "nat option \<Rightarrow> nat \<Rightarrow> nat" where
  "orDefault v d = (case v of None \<Rightarrow> d | Some n \<Rightarrow> if n = 0 then d else n)"

definition initialize :: "nat option \<Rightarrow> nat option \<Rightarrow> bus \<Rightarrow> bus" where
  "initialize cfgQueue cfgHistory s =
     s\<lparr>maxQueueSize := orDefault cfgQueue 1000,
       maxHistorySize := orDefault cfgHistory 100,
       isInitialized := True\<rparr>"

section \<open>Listener registry\<close>

text \<open>The \<^verbatim>\<open>Set\<close> of event types keeps insertion order and no duplicates.\<close>

definition setAdd :: "string \<Rightarrow> string list \<Rightarrow> string list" where
  "setAdd t ts = (if t \<in> set ts then ts else ts @ [t])"

text \<open>
  \<^verbatim>\<open>listeners.sort((a, b) => b.priority - a.priority)\<close>: \<^verbatim>\<open>Array.prototype.sort\<close> is a
  stable sort (ECMAScript 2019), here by descending priority. \<^const>\<open>sort_key\<close> is a stable
  insertion sort.
\<close>

definition sortListeners :: "listener list \<Rightarrow> listener list" where
  "sortListeners ls = sort_key (\<lambda>l. - priority l) ls"

definition subscribe :: "string \<Rightarrow> callback option \<Rightarrow> int \<Rightarrow> bus \<Rightarrow> bus \<times> jsret" where
  "subscribe eventType cb prio s =
     (if \<not> isInitialized s then (s, RFalse)
      else case cb of
        None \<Rightarrow> (s, RFalse)
      | Some f \<Rightarrow>
          if eventType = [] then (s, RFalse)
          else
            let s1 = (case listeners s eventType of
                        None \<Rightarrow> s\<lparr>listeners := (listeners s)(eventType \<mapsto> []),
                                   eventTypes := setAdd eventType (eventTypes s)\<rparr>
                      | Some _ \<Rightarrow> s);
                l = \<lparr>callback = f, priority = prio, lid = nextId s1\<rparr>;
                s2 = s1\<lparr>nextId := Suc (nextId s1)\<rparr>;
                ls = (case listeners s2 eventType of None \<Rightarrow> [] | Some xs \<Rightarrow> xs)
            in (s2\<lparr>listeners := (listeners s2)(eventType \<mapsto> sortListeners (ls @ [l]))\<rparr>,
                RId (lid l)))"

fun findIndex :: "('a \<Rightarrow> bool) \<Rightarrow> 'a list \<Rightarrow> nat option" where
  "findIndex P [] = None"
| "findIndex P (x # xs) =
     (if P x then Some 0 else map_option Suc (findIndex P xs))"

text \<open>\<^verbatim>\<open>listeners.splice(index, 1)\<close>\<close>

definition splice1 :: "nat \<Rightarrow> 'a list \<Rightarrow> 'a list" where
  "splice1 i xs = take i xs @ drop (Suc i) xs"

definition matches :: "target \<Rightarrow> listener \<Rightarrow> bool" where
  "matches tg l =
     (case tg of
        ByCallback f \<Rightarrow> fid (callback l) = fid f
      | ById i \<Rightarrow> lid l = i)"

definition unsubscribe :: "string \<Rightarrow> target \<Rightarrow> bus \<Rightarrow> bus \<times> bool" where
  "unsubscribe eventType callbackOrId s =
     (case listeners s eventType of
        None \<Rightarrow> (s, False)
      | Some ls \<Rightarrow>
          (case findIndex (matches callbackOrId) ls of
             None \<Rightarrow> (s, False)
           | Some index \<Rightarrow>
               (s\<lparr>listeners := (listeners s)(eventType \<mapsto> splice1 index ls)\<rparr>, True)))"

definition getListeners :: "string \<Rightarrow> bus \<Rightarrow> listener list" where
  "getListeners eventType s =
     (case listeners s eventType of None \<Rightarrow> [] | Some ls \<Rightarrow> ls)"

section \<open>History log\<close>

definition addToHistory :: "event \<Rightarrow> bus \<Rightarrow> bus" where
  "addToHistory ev s =
     (let a = eventHistory s;
          pushed = arrays s a @ [ev];
          kept = (if length pushed > maxHistorySize s then tl pushed else pushed)
      in s\<lparr>arrays := (arrays s)(a := kept)\<rparr>)"

section \<open>Publishing and dispatch\<close>

text \<open>
  A callback may publish immediately and so start a nested dispatch, and a listener array
  may grow while it is iterated, so a dispatch need not end. The functions below take
  fuel: \<open>None\<close> means that the call has not returned within the fuel. One unit is used
  by each call of a callback and by each iteration of the listener loop.

  The listener loop \<^verbatim>\<open>for (const listener of listeners)\<close> runs the array iterator over
  the array held in the map: each step reads the current length and the current element
  at the index, then moves the index on. The actions of a callback never remove or
  replace the map entry of a type, so reading the entry again at each step reads the same
  array object.
\<close>

function (sequential) call :: "nat \<Rightarrow> callback \<Rightarrow> event \<Rightarrow> bus \<Rightarrow> (bus \<times> payload option completion) option"
and run :: "nat \<Rightarrow> event \<Rightarrow> action list \<Rightarrow> bus \<Rightarrow> (bus \<times> payload option completion) option"
and publish :: "nat \<Rightarrow> string \<Rightarrow> payload \<Rightarrow> bool \<Rightarrow> bus \<Rightarrow> (bus \<times> jsret completion) option"
and queueEvent :: "nat \<Rightarrow> event \<Rightarrow> bus \<Rightarrow> (bus \<times> bool completion) option"
and processEvent :: "nat \<Rightarrow> event \<Rightarrow> bus \<Rightarrow> (bus \<times> payload list option completion) option"
and dispatch :: "nat \<Rightarrow> event \<Rightarrow> nat \<Rightarrow> payload list \<Rightarrow> bus \<Rightarrow> (bus \<times> payload list) option"
where
  "call 0 f ev s = None"
| "call (Suc n) f ev s = run n ev (body f ev) (s\<lparr>calls := calls s @ [(fid f, ev)]\<rparr>)"
| "run n ev [] s = Some (s, Returns None)"
| "run n ev (Return v # rest) s = Some (s, Returns v)"
| "run n ev (Throw # rest) s = Some (s, Throws)"
| "run n ev (Publish t d imm # rest) s =
     (case publish n t d imm s of
        None \<Rightarrow> None
      | Some (s', Throws) \<Rightarrow> Some (s', Throws)
      | Some (s', Returns _) \<Rightarrow> run n ev rest s')"
| "run n ev (Subscribe t cb p # rest) s = run n ev rest (fst (subscribe t cb p s))"
| "run n ev (Unsubscribe t tg # rest) s = run n ev rest (fst (unsubscribe t tg s))"
| "run n ev (Call f # rest) s =
     (case call n f ev s of
        None \<Rightarrow> None
      | Some (s', Throws) \<Rightarrow> Some (s', Throws)
      | Some (s', Returns _) \<Rightarrow> run n ev rest s')"
| "publish n eventType d immediate s =
     (if \<not> isInitialized s then Some (s, Returns RFalse)
      else if eventType = [] then Some (s, Returns RFalse)
      else
        let ev = \<lparr>etype = eventType, edata = d, eid = nextId s\<rparr>;
            s1 = s\<lparr>nextId := Suc (nextId s)\<rparr>
        in if immediate then
             (case processEvent n ev s1 of
                None \<Rightarrow> None
              | Some (s', Throws) \<Rightarrow> Some (s', Throws)
              | Some (s', Returns _) \<Rightarrow> Some (s', Returns (RId (eid ev))))
           else
             (case queueEvent n ev s1 of
                None \<Rightarrow> None
              | Some (s', Throws) \<Rightarrow> Some (s', Throws)
              | Some (s', Returns _) \<Rightarrow> Some (s', Returns (RId (eid ev)))))"
| "queueEvent n ev s =
     (if length (eventQueue s) \<ge> maxQueueSize s then
        let s1 = s\<lparr>performance := (performance s)\<lparr>eventsDropped := Suc (eventsDropped (performance s))\<rparr>\<rparr>
        in (case onEventDropped s1 of
              None \<Rightarrow> Some (s1, Returns False)
            | Some h \<Rightarrow>
                (case call n h ev s1 of
                   None \<Rightarrow> None
                 | Some (s', Throws) \<Rightarrow> Some (s', Throws)
                 | Some (s', Returns _) \<Rightarrow> Some (s', Returns False)))
      else
        Some (s\<lparr>eventQueue := eventQueue s @ [ev],
                performance := (performance s)\<lparr>eventsQueued := Suc (eventsQueued (performance s))\<rparr>\<rparr>,
              Returns True))"
| "processEvent n ev s =
     (if listeners s (etype ev) = None then Some (s, Returns None)
      else
        case dispatch n ev 0 [] s of
          None \<Rightarrow> None
        | Some (s1, results) \<Rightarrow>
            let s2 = addToHistory ev s1
            in (case onEventProcessed s2 of
                  None \<Rightarrow> Some (s2, Returns (Some results))
                | Some h \<Rightarrow>
                    (case call n h ev s2 of
                       None \<Rightarrow> None
                     | Some (s', Throws) \<Rightarrow> Some (s', Throws)
                     | Some (s', Returns _) \<Rightarrow> Some (s', Returns (Some results)))))"
| "dispatch 0 ev i results s = None"
| "dispatch (Suc n) ev i results s =
     (let ls = getListeners (etype ev) s
      in if i < length ls then
           (case call n (callback (ls ! i)) ev s of
              None \<Rightarrow> None
            | Some (s', Throws) \<Rightarrow> dispatch n ev (Suc i) results s'
            | Some (s', Returns None) \<Rightarrow> dispatch n ev (Suc i) results s'
            | Some (s', Returns (Some r)) \<Rightarrow> dispatch n ev (Suc i) (results @ [r]) s')
         else Some (s, results))"

  by pat_completeness auto

text \<open>
  Termination: the fuel goes down with each call of a callback and each iteration of the
  listener loop; at equal fuel every call goes from \<open>run\<close> through \<open>publish\<close> and
  \<open>processEvent\<close> down to \<open>call\<close>, or to \<open>run\<close> on a shorter list of actions.
\<close>

termination
  by (relation "measures
        [case_sum (case_sum (\<lambda>(n, f, ev, s). n)
                            (case_sum (\<lambda>(n, ev, as, s). n) (\<lambda>(n, t, d, imm, s). n)))
                  (case_sum (\<lambda>(n, ev, s). n)
                            (case_sum (\<lambda>(n, ev, s). n) (\<lambda>(n, ev, i, r, s). n))),
         case_sum (case_sum (\<lambda>_. 0) (case_sum (\<lambda>_. 4) (\<lambda>_. 3)))
                  (case_sum (\<lambda>_. 1) (case_sum (\<lambda>_. 2) (\<lambda>_. 1))),
         case_sum (case_sum (\<lambda>_. 0) (case_sum (\<lambda>(n, ev, as, s). length as) (\<lambda>_. 0)))
                  (\<lambda>_. 0)]")
     auto

text \<open>
  The equations of \<open>publish\<close>, \<open>queueEvent\<close> and \<open>processEvent\<close> match every
  call; they are unfolded by name where a proof needs them.
\<close>

declare publish.simps [simp del] queueEvent.simps [simp del] processEvent.simps [simp del]

section \<open>Draining the queue\<close>

text \<open>
  The \<^verbatim>\<open>while (this.eventQueue.length > 0)\<close> loop of \<^verbatim>\<open>processEvents\<close>, with the
  running \<^verbatim>\<open>processedCount\<close>. An exception that leaves \<^verbatim>\<open>processEvent\<close> (it can only
  come from the \<^verbatim>\<open>onEventProcessed\<close> hook) leaves the loop and \<^verbatim>\<open>processEvents\<close> too.
\<close>

fun drain :: "nat \<Rightarrow> nat \<Rightarrow> bus \<Rightarrow> (bus \<times> nat completion) option" where
  "drain 0 processedCount s = None"
| "drain (Suc n) processedCount s =
     (case eventQueue s of
        [] \<Rightarrow> Some (s, Returns processedCount)
      | ev # q \<Rightarrow>
          (case processEvent n ev (s\<lparr>eventQueue := q\<rparr>) of
             None \<Rightarrow> None
           | Some (s', Throws) \<Rightarrow> Some (s', Throws)
           | Some (s', Returns _) \<Rightarrow> drain n (Suc processedCount) s'))"

definition processEvents :: "nat \<Rightarrow> bus \<Rightarrow> (bus \<times> unit completion) option" where
  "processEvents n s =
     (if processingEvents s \<or> eventQueue s = [] then Some (s, Returns ())
      else
        case drain n 0 (s\<lparr>processingEvents := True\<rparr>) of
          None \<Rightarrow> None
        | Some (s', Throws) \<Rightarrow> Some (s', Throws)
        | Some (s', Returns processedCount) \<Rightarrow>
            Some (s'\<lparr>performance := (performance s')
                      \<lparr>eventsProcessed := eventsProcessed (performance s') + processedCount\<rparr>,
                    processingEvents := False\<rparr>,
                  Returns ()))"

definition update :: "nat \<Rightarrow> bus \<Rightarrow> (bus \<times> unit completion) option" where
  "update n s = processEvents n s"

section \<open>History queries\<close>

definition alloc :: "event list \<Rightarrow> bus \<Rightarrow> bus \<times> nat" where
  "alloc xs s = (s\<lparr>arrays := (arrays s)(nextAddr s := xs), nextAddr := Suc (nextAddr s)\<rparr>, nextAddr s)"

text \<open>\<^verbatim>\<open>Array.prototype.slice(start)\<close> for an integer \<^verbatim>\<open>start\<close>: a negative start counts from the end.\<close>

definition slice :: "int \<Rightarrow> 'a list \<Rightarrow> 'a list" where
  "slice start xs =
     (if start < 0 then drop (nat (max (int (length xs) + start) 0)) xs
      else drop (nat start) xs)"

text \<open>
  \<^verbatim>\<open>getEventHistory(eventType = null, limit = null)\<close> returns a reference to an array: the
  result is an address of the store. \<^verbatim>\<open>if (eventType)\<close> holds for a non-empty string,
  \<^verbatim>\<open>if (limit)\<close> for a number other than 0.
\<close>

definition getEventHistory :: "string option \<Rightarrow> int option \<Rightarrow> bus \<Rightarrow> bus \<times> nat" where
  "getEventHistory eventType limit s =
     (let (s1, h1) =
            (case eventType of
               None \<Rightarrow> (s, eventHistory s)
             | Some t \<Rightarrow>
                 if t = [] then (s, eventHistory s)
                 else alloc (filter (\<lambda>e. etype e = t) (arrays s (eventHistory s))) s)
      in case limit of
           None \<Rightarrow> (s1, h1)
         | Some n \<Rightarrow>
             if n = 0 then (s1, h1)
             else alloc (slice (- n) (arrays s1 h1)) s1)"

definition clearHistory :: "bus \<Rightarrow> bus" where
  "clearHistory s = (let (s1, a) = alloc [] s in s1\<lparr>eventHistory := a\<rparr>)"

text \<open>What a caller holding a reference to an array can do to it: \<^verbatim>\<open>push\<close>.\<close>

definition arrayPush :: "nat \<Rightarrow> event \<Rightarrow> bus \<Rightarrow> bus" where
  "arrayPush a ev s = s\<lparr>arrays := (arrays s)(a := arrays s a @ [ev])\<rparr>"

section \<open>Other operations\<close>

definition getEventTypes :: "bus \<Rightarrow> string list" where
  "getEventTypes s = eventTypes s"

definition getPerformanceStats :: "bus \<Rightarrow> perf" where
  "getPerformanceStats s = performance s"

definition resetPerformanceStats :: "bus \<Rightarrow> bus" where
  "resetPerformanceStats s =
     s\<lparr>performance := \<lparr>eventsProcessed = 0, eventsQueued = 0, eventsDropped = 0\<rparr>\<rparr>"

definition setProcessedCallback :: "callback option \<Rightarrow> bus \<Rightarrow> bus" where
  "setProcessedCallback cb s = s\<lparr>onEventProcessed := cb\<rparr>"

definition setDroppedCallback :: "callback option \<Rightarrow> bus \<Rightarrow> bus" where
  "setDroppedCallback cb s = s\<lparr>onEventDropped := cb\<rparr>"

text \<open>
  \<^verbatim>\<open>once\<close> subscribes a wrapper closure that captures \<^verbatim>\<open>listenerId\<close>, the id that this
  very \<^verbatim>\<open>subscribe\<close> call returns: the next id of the counter. The wrapper unsubscribes
  that id, calls the callback and returns nothing. A value that is not a function is
  wrapped all the same and throws when the wrapper calls it.
\<close>

definition once :: "string \<Rightarrow> callback option \<Rightarrow> bus \<Rightarrow> bus \<times> jsret" where
  "once eventType cb s =
     (let listenerId = nextId s;
          wrappedCallback =
            Callback (OnceWrapper listenerId)
              (\<lambda>ev. [Unsubscribe eventType (ById listenerId),
                     (case cb of None \<Rightarrow> Throw | Some f \<Rightarrow> Call f)])
      in subscribe eventType (Some wrappedCallback) 0 s)"

text \<open>
  The class body defines \<^verbatim>\<open>removeAllListeners\<close> twice (lines 384 and 395). In a
  JavaScript class body the later definition of a method name replaces the earlier one,
  so the method of the class is the second definition, which takes no parameter and
  ignores any argument. The first definition is dead code; it is kept here under its own
  name.
\<close>

definition removeAllListeners_shadowed :: "string \<Rightarrow> bus \<Rightarrow> bus" where
  "removeAllListeners_shadowed eventType s =
     (case listeners s eventType of
        None \<Rightarrow> s
      | Some _ \<Rightarrow> s\<lparr>listeners := (listeners s)(eventType := None),
                       eventTypes := removeAll eventType (eventTypes s)\<rparr>)"

definition removeAllListeners :: "string option \<Rightarrow> bus \<Rightarrow> bus" where
  "removeAllListeners eventType s = s\<lparr>listeners := (\<lambda>_. None), eventTypes := []\<rparr>"

definition clearQueue :: "bus \<Rightarrow> bus" where
  "clearQueue s = s\<lparr>eventQueue := []\<rparr>"

text \<open>
  \<^verbatim>\<open>shutdown\<close> drains the queue, then clears the bus; the two assignments of \<^verbatim>\<open>[]\<close>
  create new arrays. An exception from the drain leaves \<^verbatim>\<open>shutdown\<close> before anything is
  cleared.
\<close>

definition shutdown :: "nat \<Rightarrow> bus \<Rightarrow> (bus \<times> unit completion) option" where
  "shutdown n s =
     (case processEvents n s of
        None \<Rightarrow> None
      | Some (s', Throws) \<Rightarrow> Some (s', Throws)
      | Some (s', Returns _) \<Rightarrow>
          Some ((clearHistory (s'\<lparr>listeners := (\<lambda>_. None), eventTypes := [], eventQueue := []\<rparr>))
                  \<lparr>isInitialized := False\<rparr>,
                Returns ()))"

section \<open>A client of the bus\<close>

text \<open>
  The public methods as a datatype of calls, and a client that makes them one after the
  other. The client drops the value that a call returns, and goes on after a call that
  throws, with the bus as the call left it. \<open>None\<close>: a call has not returned within the
  fuel. The \<^verbatim>\<open>waitFor...\<close> methods are built on promises and timers and are not part of
  the model.
\<close>

datatype op =
    OpInitialize "nat option" "nat option"
  | OpSubscribe string "callback option" int
  | OpUnsubscribe string target
  | OpPublish string payload bool
  | OpProcessEvents
  | OpUpdate
  | OpGetEventHistory "string option" "int option"
  | OpClearHistory
  | OpResetPerformanceStats
  | OpSetProcessedCallback "callback option"
  | OpSetDroppedCallback "callback option"
  | OpOnce string "callback option"
  | OpRemoveAllListeners "string option"
  | OpClearQueue
  | OpShutdown

fun apply_op :: "nat \<Rightarrow> op \<Rightarrow> bus \<Rightarrow> bus option" where
  "apply_op n (OpInitialize q h) s = Some (initialize q h s)"
| "apply_op n (OpSubscribe t cb p) s = Some (fst (subscribe t cb p s))"
| "apply_op n (OpUnsubscribe t tg) s = Some (fst (unsubscribe t tg s))"
| "apply_op n (OpPublish t d imm) s = map_option fst (publish n t d imm s)"
| "apply_op n OpProcessEvents s = map_option fst (processEvents n s)"
| "apply_op n OpUpdate s = map_option fst (update n s)"
| "apply_op n (OpGetEventHistory t l) s = Some (fst (getEventHistory t l s))"
| "apply_op n OpClearHistory s = Some (clearHistory s)"
| "apply_op n OpResetPerformanceStats s = Some (resetPerformanceStats s)"
| "apply_op n (OpSetProcessedCallback cb) s = Some (setProcessedCallback cb s)"
| "apply_op n (OpSetDroppedCallback cb) s = Some (setDroppedCallback cb s)"
| "apply_op n (OpOnce t cb) s = Some (fst (once t cb s))"
| "apply_op n (OpRemoveAllListeners t) s = Some (removeAllListeners t s)"
| "apply_op n OpClearQueue s = Some (clearQueue s)"
| "apply_op n OpShutdown s = map_option fst (shutdown n s)"

fun apply_ops :: "nat \<Rightarrow> op list \<Rightarrow> bus \<Rightarrow> bus option" where
  "apply_ops n [] s = Some s"
| "apply_ops n (x # xs) s =
     (case apply_op n x s of None \<Rightarrow> None | Some s' \<Rightarrow> apply_ops n xs s')"

fun isInit :: "op \<Rightarrow> bool" where
  "isInit (OpInitialize q h) = True"
| "isInit _ = False"

section \<open>Callbacks that stay out of the bus\<close>

text \<open>
  A callback is \<^emph>\<open>passive\<close> when it returns or throws without calling the bus, and
  \<^emph>\<open>quiet\<close> when it returns without calling the bus. \<open>outcome\<close> is how such a body
  ends.
\<close>

definition inert :: "action \<Rightarrow> bool" where
  "inert a = (case a of Return v \<Rightarrow> True | Throw \<Rightarrow> True | _ \<Rightarrow> False)"

definition passiveCb :: "callback \<Rightarrow> bool" where
  "passiveCb f = (\<forall>ev. \<forall>a \<in> set (body f ev). inert a)"

definition quietCb :: "callback \<Rightarrow> bool" where
  "quietCb f = (\<forall>ev. \<forall>a \<in> set (body f ev). a \<noteq> Throw \<and> inert a)"

definition quietHook :: "callback option \<Rightarrow> bool" where
  "quietHook h = (case h of None \<Rightarrow> True | Some f \<Rightarrow> quietCb f)"

fun outcome :: "action list \<Rightarrow> payload option completion" where
  "outcome (Return v # rest) = Returns v"
| "outcome (Throw # rest) = Throws"
| "outcome _ = Returns None"

text \<open>The invocations that one dispatch of \<open>ev\<close> to the listeners \<open>ls\<close> records.\<close>

definition invocations :: "event \<Rightarrow> listener list \<Rightarrow> (fident \<times> event) list" where
  "invocations ev ls = map (\<lambda>l. (fid (callback l), ev)) ls"

definition hookCall :: "callback option \<Rightarrow> event \<Rightarrow> (fident \<times> event) list" where
  "hookCall h ev = (case h of None \<Rightarrow> [] | Some f \<Rightarrow> [(fid f, ev)])"

text \<open>The results that a dispatch to passive listeners collects: the values returned.\<close>

definition resultsOf :: "event \<Rightarrow> listener list \<Rightarrow> payload list" where
  "resultsOf ev ls =
     concat (map (\<lambda>l. case outcome (body (callback l) ev) of
                          Returns (Some r) \<Rightarrow> [r] | _ \<Rightarrow> []) ls)"

text \<open>
  What the dispatch of one event does to a bus whose listeners are passive: nothing when
  the type has no entry in the listener map; otherwise the event is added to the history
  and the listeners, then the \<^verbatim>\<open>onEventProcessed\<close> hook, are invoked.
\<close>

definition settle :: "event \<Rightarrow> bus \<Rightarrow> bus" where
  "settle ev s =
     (case listeners s (etype ev) of
        None \<Rightarrow> s
      | Some ls \<Rightarrow>
          (addToHistory ev s)
            \<lparr>calls := calls s @ invocations ev ls @ hookCall (onEventProcessed s) ev\<rparr>)"

definition dispatched :: "bus \<Rightarrow> event \<Rightarrow> (fident \<times> event) list" where
  "dispatched s ev =
     (case listeners s (etype ev) of
        None \<Rightarrow> []
      | Some ls \<Rightarrow> invocations ev ls @ hookCall (onEventProcessed s) ev)"

text \<open>The queued events that a drain records in the history: those whose type has an entry.\<close>

definition recorded :: "bus \<Rightarrow> event list \<Rightarrow> event list" where
  "recorded s evs = filter (\<lambda>ev. listeners s (etype ev) \<noteq> None) evs"

definition passiveBus :: "bus \<Rightarrow> bool" where
  "passiveBus s =
     ((\<forall>t ls. listeners s t = Some ls \<longrightarrow> (\<forall>l \<in> set ls. passiveCb (callback l)))
      \<and> quietHook (onEventProcessed s))"

text \<open>
  Fuel that is enough to drain the queue of a bus with passive listeners: one unit for
  each queued event and one for each listener of the event with the most listeners.
\<close>

definition enoughFuel :: "nat \<Rightarrow> bus \<Rightarrow> bool" where
  "enoughFuel n s =
     (length (eventQueue s) < n \<and>
      (\<forall>ev \<in> set (eventQueue s).
          length (getListeners (etype ev) s) + length (eventQueue s) < n))"

text \<open>No hook is installed.\<close>

definition hooksNone :: "bus \<Rightarrow> bool" where
  "hooksNone s = (onEventProcessed s = None \<and> onEventDropped s = None)"








section \<open>Vocabulary for the history and the registry\<close>

text \<open>
  \<open>pushEvict\<close> is \<^verbatim>\<open>addToHistory\<close> on the list alone; \<open>lastN k xs\<close> is the
  last \<open>k\<close> elements of \<open>xs\<close>, or all of them.
\<close>

definition pushEvict :: "nat \<Rightarrow> event list \<Rightarrow> event \<Rightarrow> event list" where
  "pushEvict cap h ev = (if length (h @ [ev]) > cap then tl (h @ [ev]) else h @ [ev])"

definition lastN :: "nat \<Rightarrow> 'a list \<Rightarrow> 'a list" where
  "lastN k xs = drop (length xs - k) xs"

text \<open>
  The history is within its capacity, and the address of its array is one that the store
  has handed out.
\<close>

definition histOk :: "bus \<Rightarrow> bool" where
  "histOk s = (length (history s) \<le> maxHistorySize s \<and> eventHistory s < nextAddr s)"

text \<open>
  A sequence of \<^verbatim>\<open>subscribe\<close> calls, and the callbacks and priorities that it registers
  for a type on an initialized bus, in the order of the calls.
\<close>

fun subscribeAll :: "(string \<times> callback option \<times> int) list \<Rightarrow> bus \<Rightarrow> bus" where
  "subscribeAll [] s = s"
| "subscribeAll ((t, cb, p) # rest) s = subscribeAll rest (fst (subscribe t cb p s))"

fun registered :: "string \<Rightarrow> (string \<times> callback option \<times> int) list \<Rightarrow> (callback \<times> int) list" where
  "registered t [] = []"
| "registered t ((t', cb, p) # rest) =
     (case cb of
        None \<Rightarrow> registered t rest
      | Some f \<Rightarrow> if t' = t \<and> t' \<noteq> [] then (f, p) # registered t rest else registered t rest)"

definition entry :: "listener \<Rightarrow> callback \<times> int" where
  "entry l = (callback l, priority l)"

section \<open>Buses used as examples\<close>

definition handler :: "nat \<Rightarrow> callback" where
  "handler k = Callback (Fn k) (\<lambda>_. [])"

definition thrower :: "nat \<Rightarrow> callback" where
  "thrower k = Callback (Fn k) (\<lambda>_. [Throw])"

text \<open>A bus with one listener for type a and one for type b.\<close>

definition busAB :: bus where
  "busAB = fst (subscribe ''b'' (Some (handler 2)) 0
            (fst (subscribe ''a'' (Some (handler 1)) 0
               (initialize None None constructor))))"

text \<open>A bus with a once-listener for type A and, registered after it, a plain listener.\<close>

definition busOnce :: bus where
  "busOnce = fst (subscribe ''A'' (Some (handler 2)) 0
              (fst (once ''A'' (Some (handler 1))
                 (initialize None None constructor))))"

text \<open>A bus with one listener for type A and one event of type A in its history.\<close>

definition busHist :: bus where
  "busHist = fst (the (publish 2 ''A'' 7 True
              (fst (subscribe ''A'' (Some (handler 1)) 0
                 (initialize None None constructor)))))"

text \<open>Four listeners for type A, registered with priorities 5, 1, 5 and -2.\<close>

definition busPrio :: bus where
  "busPrio = subscribeAll
     [(''A'', Some (handler 1), 5), (''A'', Some (handler 2), 1),
      (''A'', Some (handler 3), 5), (''A'', Some (handler 4), - 2)]
     (initialize None None constructor)"



text \<open>A bus of queue capacity 3 with a drop callback and three queued events.\<close>

definition busFull :: bus where
  "busFull = the (apply_ops 1
     [OpSetDroppedCallback (Some (handler 9)),
      OpPublish ''a'' 1 False, OpPublish ''a'' 2 False, OpPublish ''a'' 3 False]
     (initialize (Some 3) None constructor))"


text \<open>A bus with two events in its history, initialized again with capacity 1.\<close>

definition busReinit :: bus where
  "busReinit = the (apply_ops 3
     [OpSubscribe ''A'' (Some (handler 1)) 0,
      OpPublish ''A'' 1 True, OpPublish ''A'' 2 True,
      OpInitialize None (Some 1)]
     (initialize None None constructor))"

text \<open>Five events of type A, published to the queue.\<close>

definition fivePublishes :: "op list" where
  "fivePublishes =
     [OpPublish ''A'' 1 False, OpPublish ''A'' 2 False, OpPublish ''A'' 3 False,
      OpPublish ''A'' 4 False, OpPublish ''A'' 5 False]"


text \<open>A bus of queue capacity 3 with three queued events and a drop callback that throws.\<close>

definition busFullThrow :: bus where
  "busFullThrow = the (apply_ops 1
     [OpSetDroppedCallback (Some (thrower 9)),
      OpPublish ''a'' 1 False, OpPublish ''a'' 2 False, OpPublish ''a'' 3 False]
     (initialize (Some 3) None constructor))"

text \<open>
  The same bus with a drop callback that, for a dropped event of payload 0, publishes
  another event to the queue.
\<close>

definition redropper :: callback where
  "redropper = Callback (Fn 9) (\<lambda>ev. if edata ev = 0 then [Publish ''x'' 1 False] else [])"

definition busFullRepub :: bus where
  "busFullRepub = the (apply_ops 1
     [OpSetDroppedCallback (Some redropper),
      OpPublish ''a'' 1 False, OpPublish ''a'' 2 False, OpPublish ''a'' 3 False]
     (initialize (Some 3) None constructor))"

text \<open>
  The four priorities 5, 1, 5 and -2 again, the first listener being one that unsubscribes
  itself by its id, as the listener of \<^verbatim>\<open>waitForEvent\<close> does.
\<close>

definition selfRemover :: callback where
  "selfRemover = Callback (Fn 1) (\<lambda>ev. [Unsubscribe ''A'' (ById 0)])"

definition busPrioSelf :: bus where
  "busPrioSelf = subscribeAll
     [(''A'', Some selfRemover, 5), (''A'', Some (handler 2), 1),
      (''A'', Some (handler 3), 5), (''A'', Some (handler 4), - 2)]
     (initialize None None constructor)"

text \<open>
  Two listeners of priority 0 for type A, the first being one that registers another
  callback with priority 10, after removing that callback's earlier registration if any.
\<close>

definition resubscriber :: callback where
  "resubscriber = Callback (Fn 1)
     (\<lambda>ev. [Unsubscribe ''A'' (ByCallback (handler 7)), Subscribe ''A'' (Some (handler 7)) 10])"

definition busResub :: bus where
  "busResub = subscribeAll
     [(''A'', Some resubscriber, 0), (''A'', Some (handler 2), 0)]
     (initialize None None constructor)"

text \<open>
  A bus where type A has a once-listener whose callback throws (priority 0) and a plain
  listener of priority -1, type B has one listener, and an event of each type is queued.
\<close>

definition busOnceFaulty :: bus where
  "busOnceFaulty = the (apply_ops 1
     [OpOnce ''A'' (Some (thrower 1)), OpSubscribe ''A'' (Some (handler 2)) (- 1),
      OpSubscribe ''B'' (Some (handler 3)) 0,
      OpPublish ''A'' 10 False, OpPublish ''B'' 20 False]
     (initialize None None constructor))"

section \<open>Properties\<close>

subsection \<open>Passive callbacks\<close>

text \<open>
  A passive callback leaves the bus as it is but for the record of its invocation, so the
  listener loop visits every listener of the array, in order, whatever each one returns
  or throws.
\<close>

lemma run_inert: "\<forall>a \<in> set as. inert a \<Longrightarrow> run n ev as s = Some (s, outcome as)"
  by (cases as; cases "hd as") (auto simp: inert_def)

lemma outcome_quiet:
  "\<forall>a \<in> set as. a \<noteq> Throw \<and> inert a \<Longrightarrow> \<exists>v. outcome as = Returns v"
  by (cases as; cases "hd as") (auto simp: inert_def)

lemma call_passive:
  "passiveCb f \<Longrightarrow>
   call (Suc n) f ev s = Some (s\<lparr>calls := calls s @ [(fid f, ev)]\<rparr>, outcome (body f ev))"
  by (simp add: passiveCb_def run_inert)

lemma call_quiet:
  "quietCb f \<Longrightarrow>
   \<exists>v. call (Suc n) f ev s = Some (s\<lparr>calls := calls s @ [(fid f, ev)]\<rparr>, Returns v)"
  using outcome_quiet [of "body f ev"] run_inert [of "body f ev"]
  by (auto simp: quietCb_def)

lemma passiveCb_handler [simp]: "passiveCb (handler k)" "quietCb (handler k)"
  by (simp_all add: passiveCb_def quietCb_def handler_def)

lemma passiveCb_thrower [simp]: "passiveCb (thrower k)"
  by (simp add: passiveCb_def thrower_def inert_def)

lemma getListeners_calls [simp]: "getListeners t (s\<lparr>calls := x\<rparr>) = getListeners t s"
  by (simp add: getListeners_def)

lemma dispatch_passive:
  assumes "\<forall>l \<in> set (getListeners (etype ev) s). passiveCb (callback l)"
    and "i \<le> length (getListeners (etype ev) s)"
    and "length (getListeners (etype ev) s) - i < n"
  shows "dispatch n ev i res s =
           Some (s\<lparr>calls := calls s @ invocations ev (drop i (getListeners (etype ev) s))\<rparr>,
                 res @ resultsOf ev (drop i (getListeners (etype ev) s)))"
  using assms
proof (induction n arbitrary: i res s)
  case 0
  then show ?case by simp
next
  case (Suc n)
  let ?ls = "getListeners (etype ev) s"
  show ?case
  proof (cases "i < length ?ls")
    case False
    with Suc.prems show ?thesis by (simp add: invocations_def resultsOf_def)
  next
    case True
    with Suc.prems(3) obtain k where n: "n = Suc k" by (cases n) auto
    let ?f = "callback (?ls ! i)"
    let ?s1 = "s\<lparr>calls := calls s @ [(fid ?f, ev)]\<rparr>"
    from True Suc.prems(1) have pf: "passiveCb ?f" by simp
    have c: "call n ?f ev s = Some (?s1, outcome (body ?f ev))"
      unfolding n by (rule call_passive [OF pf])
    have ih: "dispatch n ev (Suc i) r ?s1 =
        Some (?s1\<lparr>calls := calls ?s1 @ invocations ev (drop (Suc i) ?ls)\<rparr>,
              r @ resultsOf ev (drop (Suc i) ?ls))" for r
      using Suc.IH [where s = ?s1 and i = "Suc i" and res = r] Suc.prems True by simp
    have d: "drop i ?ls = (?ls ! i) # drop (Suc i) ?ls"
      using True by (simp add: Cons_nth_drop_Suc)
    show ?thesis
    proof (cases "outcome (body ?f ev)")
      case Throws
      with c ih [of res] True show ?thesis
        by (simp add: Let_def d invocations_def resultsOf_def del: call.simps)
    next
      case (Returns v)
      with c ih [of res] ih [of "res @ [the v]"] True show ?thesis
        by (cases v) (simp_all add: Let_def d invocations_def resultsOf_def del: call.simps)
    qed
  qed
qed

lemma addToHistory_calls:
  "addToHistory ev (s\<lparr>calls := x\<rparr>) = (addToHistory ev s)\<lparr>calls := x\<rparr>"
  by (simp add: addToHistory_def Let_def)

lemma addToHistory_fields [simp]:
  "onEventProcessed (addToHistory ev s) = onEventProcessed s"
  "listeners (addToHistory ev s) = listeners s"
  "calls (addToHistory ev s) = calls s"
  "eventQueue (addToHistory ev s) = eventQueue s"
  "performance (addToHistory ev s) = performance s"
  "maxHistorySize (addToHistory ev s) = maxHistorySize s"
  "eventHistory (addToHistory ev s) = eventHistory s"
  "processingEvents (addToHistory ev s) = processingEvents s"
  by (simp_all add: addToHistory_def Let_def)

lemma queueEvent_full:
  assumes "maxQueueSize s \<le> length (eventQueue s)" "quietHook (onEventDropped s)"
  shows "queueEvent (Suc n) ev s =
           Some (s\<lparr>performance := (performance s)\<lparr>eventsDropped := Suc (eventsDropped (performance s))\<rparr>,
                   calls := calls s @ hookCall (onEventDropped s) ev\<rparr>,
                 Returns False)"
proof (cases "onEventDropped s")
  case None
  with assms show ?thesis by (simp add: hookCall_def queueEvent.simps)
next
  case (Some h)
  with assms have "quietCb h" by (simp add: quietHook_def)
  from call_quiet [OF this, of n ev
      "s\<lparr>performance := (performance s)\<lparr>eventsDropped := Suc (eventsDropped (performance s))\<rparr>\<rparr>"]
  obtain v where "call (Suc n) h ev
      (s\<lparr>performance := (performance s)\<lparr>eventsDropped := Suc (eventsDropped (performance s))\<rparr>\<rparr>)
      = Some (s\<lparr>performance := (performance s)\<lparr>eventsDropped := Suc (eventsDropped (performance s))\<rparr>,
               calls := calls s @ [(fid h, ev)]\<rparr>, Returns v)"
    by auto
  with Some assms(1) show ?thesis
    by (simp add: hookCall_def Let_def queueEvent.simps del: call.simps)
qed

subsection \<open>The history as a list\<close>

lemma history_addToHistory:
  "history (addToHistory ev s) = pushEvict (maxHistorySize s) (history s) ev"
  by (simp add: history_def addToHistory_def pushEvict_def Let_def)

lemma addToHistory_evicts_oldest:
  "history (addToHistory ev s) =
     (if length (history s) < maxHistorySize s then history s @ [ev] else tl (history s @ [ev]))"
  by (simp add: history_addToHistory pushEvict_def)

lemma pushEvict_lastN: "length h \<le> cap \<Longrightarrow> pushEvict cap h ev = lastN cap (h @ [ev])"
  by (cases "length h < cap") (auto simp: pushEvict_def lastN_def drop_Suc tl_append split: list.splits)

lemma length_lastN: "length (lastN k xs) \<le> k"
  by (simp add: lastN_def)

lemma lastN_append_lastN: "lastN k (lastN k xs @ ys) = lastN k (xs @ ys)"
  by (cases "length xs \<le> k") (auto simp: lastN_def add.commute)

lemma foldl_pushEvict:
  "length h \<le> cap \<Longrightarrow> foldl (pushEvict cap) h evs = lastN cap (h @ evs)"
proof (induction evs arbitrary: h)
  case Nil
  then show ?case by (simp add: lastN_def)
next
  case (Cons e evs)
  have "length (pushEvict cap h e) \<le> cap"
    using Cons.prems by (simp add: pushEvict_lastN length_lastN)
  from Cons.IH [OF this] have
    "foldl (pushEvict cap) (pushEvict cap h e) evs = lastN cap (lastN cap (h @ [e]) @ evs)"
    using Cons.prems by (simp add: pushEvict_lastN)
  then show ?case by (simp add: lastN_append_lastN)
qed

lemma length_pushEvict: "length h \<le> cap \<Longrightarrow> length (pushEvict cap h ev) \<le> cap"
  by (simp add: pushEvict_lastN length_lastN)

lemma last_pushEvict: "0 < cap \<Longrightarrow> pushEvict cap h ev \<noteq> [] \<and> last (pushEvict cap h ev) = ev"
  by (cases h) (auto simp: pushEvict_def)

lemma history_frame [simp]:
  "history (s\<lparr>performance := p\<rparr>) = history s"
  "history (s\<lparr>processingEvents := b\<rparr>) = history s"
  "history (s\<lparr>eventQueue := q\<rparr>) = history s"
  "history (s\<lparr>calls := c\<rparr>) = history s"
  "history (s\<lparr>nextId := i\<rparr>) = history s"
  "history (s\<lparr>listeners := l\<rparr>) = history s"
  "history (s\<lparr>eventTypes := ts\<rparr>) = history s"
  "history (s\<lparr>onEventProcessed := h\<rparr>) = history s"
  "history (s\<lparr>onEventDropped := h\<rparr>) = history s"
  "history (s\<lparr>isInitialized := b\<rparr>) = history s"
  "history (s\<lparr>maxQueueSize := m\<rparr>) = history s"
  "history (s\<lparr>maxHistorySize := m\<rparr>) = history s"
  by (simp_all add: history_def)

subsection \<open>Dispatch and drain on a bus with passive listeners\<close>

lemma processEvent_passive:
  assumes "listeners s (etype ev) = Some ls"
    and "\<forall>l \<in> set ls. passiveCb (callback l)"
    and "quietHook (onEventProcessed s)"
    and "length ls < n"
  shows "processEvent n ev s = Some (settle ev s, Returns (Some (resultsOf ev ls)))"
proof -
  have g: "getListeners (etype ev) s = ls" using assms(1) by (simp add: getListeners_def)
  have d: "dispatch n ev 0 [] s =
             Some (s\<lparr>calls := calls s @ invocations ev ls\<rparr>, resultsOf ev ls)"
    using dispatch_passive [of ev s 0 n "[]"] assms g by simp
  let ?s2 = "addToHistory ev (s\<lparr>calls := calls s @ invocations ev ls\<rparr>)"
  show ?thesis
  proof (cases "onEventProcessed s")
    case None
    with d assms(1) show ?thesis
      by (simp add: processEvent.simps settle_def hookCall_def addToHistory_calls)
  next
    case (Some h)
    with assms(3) have "quietCb h" by (simp add: quietHook_def)
    moreover obtain k where "n = Suc k" using assms(4) by (cases n) auto
    ultimately obtain v where
      "call n h ev ?s2 = Some (?s2\<lparr>calls := calls ?s2 @ [(fid h, ev)]\<rparr>, Returns v)"
      using call_quiet [of h k ev ?s2] by auto
    with d assms(1) Some show ?thesis
      by (simp add: processEvent.simps settle_def hookCall_def addToHistory_calls
               del: call.simps)
  qed
qed

lemma processEvent_no_listeners:
  "listeners s (etype ev) = None \<Longrightarrow> processEvent n ev s = Some (settle ev s, Returns None)"
  by (simp add: processEvent.simps settle_def)

lemma settle_fields [simp]:
  "listeners (settle ev s) = listeners s"
  "onEventProcessed (settle ev s) = onEventProcessed s"
  "eventQueue (settle ev s) = eventQueue s"
  "performance (settle ev s) = performance s"
  "maxHistorySize (settle ev s) = maxHistorySize s"
  "eventHistory (settle ev s) = eventHistory s"
  "processingEvents (settle ev s) = processingEvents s"
  by (simp_all add: settle_def split: option.splits)

lemma settle_eventQueue: "settle ev (s\<lparr>eventQueue := q\<rparr>) = (settle ev s)\<lparr>eventQueue := q\<rparr>"
  by (simp add: settle_def addToHistory_def Let_def split: option.splits)

lemma passiveBus_settle [simp]: "passiveBus (settle ev s) = passiveBus s"
  by (simp add: passiveBus_def)

lemma getListeners_settle [simp]: "getListeners t (settle ev s) = getListeners t s"
  by (simp add: getListeners_def)

lemma drain_passive:
  assumes "passiveBus s" and "enoughFuel n s"
  shows "drain n c s =
           Some (foldl (\<lambda>s ev. settle ev s) (s\<lparr>eventQueue := []\<rparr>) (eventQueue s),
                 Returns (c + length (eventQueue s)))"
  using assms
proof (induction n arbitrary: c s)
  case 0
  then show ?case by (simp add: enoughFuel_def)
next
  case (Suc n)
  show ?case
  proof (cases "eventQueue s")
    case Nil
    then show ?thesis by simp
  next
    case (Cons ev q)
    let ?s0 = "s\<lparr>eventQueue := q\<rparr>"
    have pb: "passiveBus ?s0" using Suc.prems(1) by (simp add: passiveBus_def)
    have fuel: "length (getListeners (etype ev) s) < n"
      using Suc.prems(2) Cons by (auto simp: enoughFuel_def)
    have pe: "\<exists>r. processEvent n ev ?s0 = Some (settle ev ?s0, Returns r)"
    proof (cases "listeners s (etype ev)")
      case None
      then show ?thesis using processEvent_no_listeners [of ?s0 ev n] by simp
    next
      case (Some ls)
      then have "processEvent n ev ?s0 = Some (settle ev ?s0, Returns (Some (resultsOf ev ls)))"
        using processEvent_passive [of ?s0 ev ls n] pb fuel
        by (simp add: passiveBus_def getListeners_def)
      then show ?thesis by blast
    qed
    have ef: "enoughFuel n (settle ev ?s0)"
      using Suc.prems(2) Cons by (auto simp: enoughFuel_def getListeners_def)
    have "drain n (Suc c) (settle ev ?s0) =
            Some (foldl (\<lambda>s ev. settle ev s) ((settle ev ?s0)\<lparr>eventQueue := []\<rparr>) q,
                  Returns (Suc c + length q))"
      using Suc.IH [where s = "settle ev ?s0" and c = "Suc c"] pb ef by simp
    moreover have "(settle ev ?s0)\<lparr>eventQueue := []\<rparr> = settle ev (s\<lparr>eventQueue := []\<rparr>)"
      by (simp add: settle_eventQueue)
    ultimately show ?thesis using pe Cons by auto
  qed
qed

lemma history_settle:
  "history (settle ev s) =
     (if listeners s (etype ev) = None then history s
      else pushEvict (maxHistorySize s) (history s) ev)"
  by (auto simp: settle_def history_def addToHistory_def pushEvict_def Let_def)

lemma calls_settle: "calls (settle ev s) = calls s @ dispatched s ev"
  by (auto simp: settle_def dispatched_def split: option.splits)

lemma dispatched_settle [simp]: "dispatched (settle e s) = dispatched s"
  by (simp add: dispatched_def fun_eq_iff split: option.splits)

lemma recorded_settle [simp]: "recorded (settle e s) = recorded s"
  by (simp add: recorded_def fun_eq_iff)

lemma foldl_settle_fields [simp]:
  "listeners (foldl (\<lambda>s ev. settle ev s) s q) = listeners s"
  "onEventProcessed (foldl (\<lambda>s ev. settle ev s) s q) = onEventProcessed s"
  "eventQueue (foldl (\<lambda>s ev. settle ev s) s q) = eventQueue s"
  "performance (foldl (\<lambda>s ev. settle ev s) s q) = performance s"
  "maxHistorySize (foldl (\<lambda>s ev. settle ev s) s q) = maxHistorySize s"
  "processingEvents (foldl (\<lambda>s ev. settle ev s) s q) = processingEvents s"
  by (induction q arbitrary: s; simp)+

lemma calls_foldl_settle:
  "calls (foldl (\<lambda>s ev. settle ev s) s q) = calls s @ concat (map (dispatched s) q)"
  by (induction q arbitrary: s) (simp_all add: calls_settle)

lemma history_foldl_settle:
  "history (foldl (\<lambda>s ev. settle ev s) s q) =
     foldl (pushEvict (maxHistorySize s)) (history s) (recorded s q)"
  by (induction q arbitrary: s) (simp_all add: history_settle recorded_def)


lemma processEvents_passive:
  assumes "passiveBus s" and "\<not> processingEvents s" and "enoughFuel n s"
    and "length (history s) \<le> maxHistorySize s"
  shows "\<exists>s'. processEvents n s = Some (s', Returns ())
          \<and> eventQueue s' = []
          \<and> \<not> processingEvents s'
          \<and> calls s' = calls s @ concat (map (dispatched s) (eventQueue s))
          \<and> history s' = lastN (maxHistorySize s) (history s @ recorded s (eventQueue s))
          \<and> eventsProcessed (performance s') =
              eventsProcessed (performance s) + length (eventQueue s)
          \<and> listeners s' = listeners s"
proof (cases "eventQueue s = []")
  case True
  with assms show ?thesis
    by (simp add: processEvents_def recorded_def lastN_def)
next
  case False
  let ?s0 = "s\<lparr>processingEvents := True\<rparr>"
  have "passiveBus ?s0" "enoughFuel n ?s0"
    using assms(1,3) by (simp_all add: passiveBus_def enoughFuel_def getListeners_def)
  from drain_passive [OF this, of 0]
  have d: "drain n 0 ?s0 =
      Some (foldl (\<lambda>s ev. settle ev s) (?s0\<lparr>eventQueue := []\<rparr>) (eventQueue s),
            Returns (length (eventQueue s)))"
    by simp
  have r: "recorded (?s0\<lparr>eventQueue := []\<rparr>) = recorded s"
    and dd: "dispatched (?s0\<lparr>eventQueue := []\<rparr>) = dispatched s"
    by (simp_all add: recorded_def dispatched_def fun_eq_iff split: option.splits)
  show ?thesis
    using False assms(2,4) d
    by (simp add: processEvents_def calls_foldl_settle history_foldl_settle
          foldl_pushEvict r dd)
qed

lemma processEvent_order:
  assumes "\<forall>l \<in> set (getListeners (etype ev) s). passiveCb (callback l)"
    and "quietHook (onEventProcessed s)"
    and "length (getListeners (etype ev) s) < n"
  shows "\<exists>s' r. processEvent n ev s = Some (s', Returns r) \<and> calls s' = calls s @ dispatched s ev"
proof (cases "listeners s (etype ev)")
  case None
  then show ?thesis
    using processEvent_no_listeners [of s ev n] by (simp add: calls_settle)
next
  case (Some ls)
  with assms show ?thesis
    using processEvent_passive [of s ev ls n] by (simp add: calls_settle getListeners_def)
qed


subsection \<open>More fuel changes no result\<close>

text \<open>
  A call that returns within the fuel \<open>n\<close> returns the same with any larger fuel.
\<close>

lemma fuel_mono:
  "call n f ev s = Some r1 \<Longrightarrow> n \<le> m \<Longrightarrow> call m f ev s = Some r1"
  "run n ev as s = Some r2 \<Longrightarrow> n \<le> m \<Longrightarrow> run m ev as s = Some r2"
  "publish n t d imm s = Some r3 \<Longrightarrow> n \<le> m \<Longrightarrow> publish m t d imm s = Some r3"
  "queueEvent n ev s = Some r4 \<Longrightarrow> n \<le> m \<Longrightarrow> queueEvent m ev s = Some r4"
  "processEvent n ev s = Some r5 \<Longrightarrow> n \<le> m \<Longrightarrow> processEvent m ev s = Some r5"
  "dispatch n ev i res s = Some r6 \<Longrightarrow> n \<le> m \<Longrightarrow> dispatch m ev i res s = Some r6"
proof (induction n f ev s and n ev as s and n t d imm s and n ev s and n ev s and n ev i res s
       arbitrary: m r1 and m r2 and m r3 and m r4 and m r5 and m r6
       rule: call_run_publish_queueEvent_processEvent_dispatch.induct)
  case (1 f ev s)
  then show ?case by simp
next
  case (2 n f ev s)
  from "2.prems" obtain k where m: "m = Suc k" "n \<le> k" by (cases m) auto
  from "2.prems"(1) have "run n ev (body f ev) (s\<lparr>calls := calls s @ [(fid f, ev)]\<rparr>) = Some r1"
    by simp
  from "2.IH" [OF this m(2)] show ?case by (simp add: m)
next
  case (3 n ev s)
  then show ?case by simp
next
  case (4 n ev v rest s)
  then show ?case by simp
next
  case (5 n ev rest s)
  then show ?case by simp
next
  case (6 n ev t d imm rest s)
  from "6.prems"(1) obtain s' c where p: "publish n t d imm s = Some (s', c)"
    by (cases "publish n t d imm s") auto
  from "6.IH"(1) [OF p "6.prems"(2)] have pm: "publish m t d imm s = Some (s', c)" .
  show ?case
  proof (cases c)
    case (Returns x)
    with p "6.prems"(1) have "run n ev rest s' = Some r2" by simp
    from "6.IH"(2) [OF p refl Returns this "6.prems"(2)] show ?thesis
      by (simp add: pm Returns)
  next
    case Throws
    with p pm "6.prems"(1) show ?thesis by auto
  qed
next
  case (7 n ev t cb p rest s)
  from "7.prems"(1) have "run n ev rest (fst (subscribe t cb p s)) = Some r2" by simp
  from "7.IH" [OF this "7.prems"(2)] show ?case by simp
next
  case (8 n ev t tg rest s)
  from "8.prems"(1) have "run n ev rest (fst (unsubscribe t tg s)) = Some r2" by simp
  from "8.IH" [OF this "8.prems"(2)] show ?case by simp
next
  case (9 n ev f rest s)
  from "9.prems"(1) obtain s' c where p: "call n f ev s = Some (s', c)"
    by (cases "call n f ev s") auto
  from "9.IH"(1) [OF p "9.prems"(2)] have pm: "call m f ev s = Some (s', c)" .
  show ?case
  proof (cases c)
    case (Returns x)
    with p "9.prems"(1) have "run n ev rest s' = Some r2" by simp
    from "9.IH"(2) [OF p refl Returns this "9.prems"(2)] show ?thesis
      by (simp add: pm Returns)
  next
    case Throws
    with p pm "9.prems"(1) show ?thesis by auto
  qed
next
  case (10 n eventType d immediate s)
  show ?case
  proof (cases "\<not> isInitialized s \<or> eventType = []")
    case True
    with "10.prems"(1) show ?thesis by (auto simp: publish.simps)
  next
    case False
    let ?ev = "\<lparr>etype = eventType, edata = d, eid = nextId s\<rparr>"
    let ?s1 = "s\<lparr>nextId := Suc (nextId s)\<rparr>"
    from False have ok: "\<not> \<not> isInitialized s" "eventType \<noteq> []" by auto
    show ?thesis
    proof (cases immediate)
      case True
      with False "10.prems"(1) obtain s' c where p: "processEvent n ?ev ?s1 = Some (s', c)"
        by (cases "processEvent n ?ev ?s1") (auto simp: Let_def publish.simps)
      from "10.IH"(1) [OF ok refl refl True p "10.prems"(2)]
      have "processEvent m ?ev ?s1 = Some (s', c)" .
      with p True False "10.prems"(1) show ?thesis by (simp add: Let_def publish.simps)
    next
      case imm: False
      with False "10.prems"(1) obtain s' c where p: "queueEvent n ?ev ?s1 = Some (s', c)"
        by (cases "queueEvent n ?ev ?s1") (auto simp: Let_def publish.simps)
      from "10.IH"(2) [OF ok refl refl imm p "10.prems"(2)]
      have "queueEvent m ?ev ?s1 = Some (s', c)" .
      with p imm False "10.prems"(1) show ?thesis by (simp add: Let_def publish.simps)
    qed
  qed
next
  case (11 n ev s)
  show ?case
  proof (cases "maxQueueSize s \<le> length (eventQueue s)")
    case False
    with "11.prems"(1) show ?thesis by (simp add: queueEvent.simps)
  next
    case full: True
    let ?s1 = "s\<lparr>performance := (performance s)\<lparr>eventsDropped := Suc (eventsDropped (performance s))\<rparr>\<rparr>"
    show ?thesis
    proof (cases "onEventDropped s")
      case None
      with full "11.prems"(1) show ?thesis by (simp add: queueEvent.simps Let_def)
    next
      case (Some h)
      with full "11.prems"(1) obtain s' c where p: "call n h ev ?s1 = Some (s', c)"
        by (cases "call n h ev ?s1") (auto simp: queueEvent.simps Let_def)
      have "onEventDropped ?s1 = Some h" using Some by simp
      from "11.IH" [OF full refl this p "11.prems"(2)]
      have "call m h ev ?s1 = Some (s', c)" .
      with p Some full "11.prems"(1) show ?thesis by (simp add: queueEvent.simps Let_def)
    qed
  qed
next
  case (12 n ev s)
  show ?case
  proof (cases "listeners s (etype ev)")
    case None
    with "12.prems"(1) show ?thesis by (simp add: processEvent.simps)
  next
    case (Some ls)
    then have some: "listeners s (etype ev) \<noteq> None" by simp
    from Some "12.prems"(1) obtain s1 results where d: "dispatch n ev 0 [] s = Some (s1, results)"
      by (cases "dispatch n ev 0 [] s") (auto simp: processEvent.simps)
    from "12.IH"(1) [OF some d "12.prems"(2)]
    have dm: "dispatch m ev 0 [] s = Some (s1, results)" .
    let ?s2 = "addToHistory ev s1"
    show ?thesis
    proof (cases "onEventProcessed ?s2")
      case None
      with Some d dm "12.prems"(1) show ?thesis by (simp add: processEvent.simps Let_def)
    next
      case hook: (Some h)
      with Some d "12.prems"(1) obtain s' c where p: "call n h ev ?s2 = Some (s', c)"
        by (cases "call n h ev ?s2") (auto simp: processEvent.simps Let_def)
      from "12.IH"(2) [OF some d refl refl hook p "12.prems"(2)]
      have "call m h ev ?s2 = Some (s', c)" .
      with p hook Some d dm "12.prems"(1) show ?thesis
        by (simp add: processEvent.simps Let_def)
    qed
  qed
next
  case (13 ev i results s)
  then show ?case by simp
next
  case (14 n ev i results s)
  from "14.prems" obtain k where m: "m = Suc k" "n \<le> k" by (cases m) auto
  let ?ls = "getListeners (etype ev) s"
  show ?case
  proof (cases "i < length ?ls")
    case False
    with "14.prems"(1) show ?thesis by (simp add: m Let_def)
  next
    case lt: True
    with "14.prems"(1) obtain s' c where p: "call n (callback (?ls ! i)) ev s = Some (s', c)"
      by (cases "call n (callback (?ls ! i)) ev s") (auto simp: Let_def)
    from "14.IH"(1) [OF refl lt p m(2)]
    have pm: "call k (callback (?ls ! i)) ev s = Some (s', c)" .
    show ?thesis
    proof (cases c)
      case Throws
      with p lt "14.prems"(1) have "dispatch n ev (Suc i) results s' = Some r6"
        by (simp add: Let_def)
      from "14.IH"(4) [OF refl lt p refl Throws this m(2)] show ?thesis
        using pm lt Throws by (simp add: m Let_def)
    next
      case (Returns v)
      show ?thesis
      proof (cases v)
        case None
        with Returns p lt "14.prems"(1) have "dispatch n ev (Suc i) results s' = Some r6"
          by (simp add: Let_def)
        from "14.IH"(2) [OF refl lt p refl Returns None this m(2)] show ?thesis
          using pm lt Returns None by (simp add: m Let_def)
      next
        case (Some r)
        with Returns p lt "14.prems"(1)
        have "dispatch n ev (Suc i) (results @ [r]) s' = Some r6"
          by (simp add: Let_def)
        from "14.IH"(3) [OF refl lt p refl Returns Some this m(2)] show ?thesis
          using pm lt Returns Some by (simp add: m Let_def)
      qed
    qed
  qed
qed

lemma drain_mono: "drain n c s = Some r \<Longrightarrow> n \<le> m \<Longrightarrow> drain m c s = Some r"
proof (induction n arbitrary: c s m)
  case 0
  then show ?case by simp
next
  case (Suc n)
  from Suc.prems(2) obtain k where m: "m = Suc k" "n \<le> k" by (cases m) auto
  show ?case
  proof (cases "eventQueue s")
    case Nil
    with Suc.prems(1) show ?thesis by (simp add: m)
  next
    case (Cons ev q)
    with Suc.prems(1) obtain s' x where p: "processEvent n ev (s\<lparr>eventQueue := q\<rparr>) = Some (s', x)"
      by (cases "processEvent n ev (s\<lparr>eventQueue := q\<rparr>)") auto
    from fuel_mono(5) [OF p m(2)]
    have pm: "processEvent k ev (s\<lparr>eventQueue := q\<rparr>) = Some (s', x)" .
    show ?thesis
    proof (cases x)
      case (Returns v)
      with p Cons Suc.prems(1) have "drain n (Suc c) s' = Some r" by simp
      from Suc.IH [OF this m(2)] pm Cons Returns show ?thesis by (simp add: m)
    next
      case Throws
      with p pm Cons Suc.prems(1) show ?thesis by (simp add: m)
    qed
  qed
qed

lemma processEvents_mono:
  "processEvents n s = Some r \<Longrightarrow> n \<le> m \<Longrightarrow> processEvents m s = Some r"
proof (cases "processingEvents s \<or> eventQueue s = []")
  case True
  then show "processEvents n s = Some r \<Longrightarrow> processEvents m s = Some r"
    by (auto simp: processEvents_def)
next
  case False
  assume a: "processEvents n s = Some r" "n \<le> m"
  with False obtain s' x where d: "drain n 0 (s\<lparr>processingEvents := True\<rparr>) = Some (s', x)"
    by (cases "drain n 0 (s\<lparr>processingEvents := True\<rparr>)") (auto simp: processEvents_def)
  from drain_mono [OF d a(2)] d a(1) False show "processEvents m s = Some r"
    by (simp add: processEvents_def)
qed

lemma shutdown_mono:
  "shutdown n s = Some r \<Longrightarrow> n \<le> m \<Longrightarrow> shutdown m s = Some r"
proof -
  assume a: "shutdown n s = Some r" "n \<le> m"
  then obtain s' x where p: "processEvents n s = Some (s', x)"
    by (cases "processEvents n s") (auto simp: shutdown_def)
  from processEvents_mono [OF p a(2)] p a(1) show ?thesis by (simp add: shutdown_def)
qed

lemma apply_op_mono:
  assumes "apply_op n x s = Some s'" and "n \<le> m"
  shows "apply_op m x s = Some s'"
proof (cases x)
  case (OpPublish t d imm)
  with assms(1) obtain r where "publish n t d imm s = Some r" "fst r = s'" by auto
  with fuel_mono(3) [OF this(1) assms(2)] OpPublish show ?thesis by simp
next
  case OpProcessEvents
  with assms(1) obtain r where "processEvents n s = Some r" "fst r = s'" by auto
  with processEvents_mono [OF this(1) assms(2)] OpProcessEvents show ?thesis by simp
next
  case OpUpdate
  with assms(1) obtain r where "processEvents n s = Some r" "fst r = s'"
    by (auto simp: update_def)
  with processEvents_mono [OF this(1) assms(2)] OpUpdate show ?thesis by (simp add: update_def)
next
  case OpShutdown
  with assms(1) obtain r where "shutdown n s = Some r" "fst r = s'" by auto
  with shutdown_mono [OF this(1) assms(2)] OpShutdown show ?thesis by simp
qed (use assms in auto)

lemma apply_ops_mono:
  "apply_ops n xs s = Some s' \<Longrightarrow> n \<le> m \<Longrightarrow> apply_ops m xs s = Some s'"
proof (induction xs arbitrary: s)
  case Nil
  then show ?case by simp
next
  case (Cons x xs)
  from Cons.prems(1) obtain s1 where a: "apply_op n x s = Some s1" "apply_ops n xs s1 = Some s'"
    by (cases "apply_op n x s") auto
  from apply_op_mono [OF a(1) Cons.prems(2)] Cons.IH [OF a(2) Cons.prems(2)]
  show ?case by simp
qed

subsection \<open>Invariants of the interpreter\<close>

text \<open>
  Whatever the callbacks do, they change the bus through the calls of the model only: a
  property that these calls keep is kept by every function of the dispatch.
\<close>

lemma interp_preserves:
  assumes calls: "\<And>s x. P s \<Longrightarrow> P (s\<lparr>calls := x\<rparr>)"
    and sub: "\<And>s t cb p. P s \<Longrightarrow> P (fst (subscribe t cb p s))"
    and unsub: "\<And>s t tg. P s \<Longrightarrow> P (fst (unsubscribe t tg s))"
    and nid: "\<And>s x. P s \<Longrightarrow> P (s\<lparr>nextId := x\<rparr>)"
    and dropped: "\<And>s. P s \<Longrightarrow>
        P (s\<lparr>performance := (performance s)\<lparr>eventsDropped := Suc (eventsDropped (performance s))\<rparr>\<rparr>)"
    and pushed: "\<And>s ev. P s \<Longrightarrow> \<not> maxQueueSize s \<le> length (eventQueue s) \<Longrightarrow>
        P (s\<lparr>eventQueue := eventQueue s @ [ev],
             performance := (performance s)\<lparr>eventsQueued := Suc (eventsQueued (performance s))\<rparr>\<rparr>)"
    and hist: "\<And>s ev. P s \<Longrightarrow> P (addToHistory ev s)"
  shows "call n f ev s = Some r1 \<Longrightarrow> P s \<Longrightarrow> P (fst r1)"
    and "run n ev as s = Some r2 \<Longrightarrow> P s \<Longrightarrow> P (fst r2)"
    and "publish n t d imm s = Some r3 \<Longrightarrow> P s \<Longrightarrow> P (fst r3)"
    and "queueEvent n ev s = Some r4 \<Longrightarrow> P s \<Longrightarrow> P (fst r4)"
    and "processEvent n ev s = Some r5 \<Longrightarrow> P s \<Longrightarrow> P (fst r5)"
    and "dispatch n ev i res s = Some r6 \<Longrightarrow> P s \<Longrightarrow> P (fst r6)"
proof (induction n f ev s and n ev as s and n t d imm s and n ev s and n ev s and n ev i res s
       arbitrary: r1 and r2 and r3 and r4 and r5 and r6
       rule: call_run_publish_queueEvent_processEvent_dispatch.induct)
  case (1 f ev s)
  then show ?case by simp
next
  case (2 n f ev s)
  from "2.prems"(1) have "run n ev (body f ev) (s\<lparr>calls := calls s @ [(fid f, ev)]\<rparr>) = Some r1"
    by simp
  from "2.IH" [OF this calls [OF "2.prems"(2)]] show ?case .
next
  case (3 n ev s)
  then show ?case by auto
next
  case (4 n ev v rest s)
  then show ?case by auto
next
  case (5 n ev rest s)
  then show ?case by auto
next
  case (6 n ev t d imm rest s)
  from "6.prems"(1) obtain s' c where p: "publish n t d imm s = Some (s', c)"
    by (cases "publish n t d imm s") auto
  from "6.IH"(1) [OF p "6.prems"(2)] have P': "P s'" by simp
  show ?case
  proof (cases c)
    case (Returns x)
    with p "6.prems"(1) have "run n ev rest s' = Some r2" by simp
    from "6.IH"(2) [OF p refl Returns this P'] show ?thesis .
  next
    case Throws
    with p P' "6.prems"(1) show ?thesis by auto
  qed
next
  case (7 n ev t cb p rest s)
  from "7.prems"(1) have "run n ev rest (fst (subscribe t cb p s)) = Some r2" by simp
  from "7.IH" [OF this sub [OF "7.prems"(2)]] show ?case .
next
  case (8 n ev t tg rest s)
  from "8.prems"(1) have "run n ev rest (fst (unsubscribe t tg s)) = Some r2" by simp
  from "8.IH" [OF this unsub [OF "8.prems"(2)]] show ?case .
next
  case (9 n ev f rest s)
  from "9.prems"(1) obtain s' c where p: "call n f ev s = Some (s', c)"
    by (cases "call n f ev s") auto
  from "9.IH"(1) [OF p "9.prems"(2)] have P': "P s'" by simp
  show ?case
  proof (cases c)
    case (Returns x)
    with p "9.prems"(1) have "run n ev rest s' = Some r2" by simp
    from "9.IH"(2) [OF p refl Returns this P'] show ?thesis .
  next
    case Throws
    with p P' "9.prems"(1) show ?thesis by auto
  qed
next
  case (10 n eventType d immediate s)
  show ?case
  proof (cases "\<not> isInitialized s \<or> eventType = []")
    case True
    with "10.prems" show ?thesis by (auto simp: publish.simps split: if_splits)
  next
    case False
    let ?ev = "\<lparr>etype = eventType, edata = d, eid = nextId s\<rparr>"
    let ?s1 = "s\<lparr>nextId := Suc (nextId s)\<rparr>"
    from False have ok: "\<not> \<not> isInitialized s" "eventType \<noteq> []" by auto
    have P1: "P ?s1" by (rule nid [OF "10.prems"(2)])
    show ?thesis
    proof (cases immediate)
      case True
      with False "10.prems"(1) obtain s' c where p: "processEvent n ?ev ?s1 = Some (s', c)"
        by (cases "processEvent n ?ev ?s1") (auto simp: Let_def publish.simps)
      from "10.IH"(1) [OF ok refl refl True p P1] have "P s'" by simp
      with p True False "10.prems"(1) show ?thesis
        by (cases c) (auto simp: Let_def publish.simps)
    next
      case imm: False
      with False "10.prems"(1) obtain s' c where p: "queueEvent n ?ev ?s1 = Some (s', c)"
        by (cases "queueEvent n ?ev ?s1") (auto simp: Let_def publish.simps)
      from "10.IH"(2) [OF ok refl refl imm p P1] have "P s'" by simp
      with p imm False "10.prems"(1) show ?thesis
        by (cases c) (auto simp: Let_def publish.simps)
    qed
  qed
next
  case (11 n ev s)
  show ?case
  proof (cases "maxQueueSize s \<le> length (eventQueue s)")
    case False
    with "11.prems"(1) pushed [OF "11.prems"(2) False] show ?thesis
      by (auto simp: queueEvent.simps)
  next
    case full: True
    let ?s1 = "s\<lparr>performance := (performance s)\<lparr>eventsDropped := Suc (eventsDropped (performance s))\<rparr>\<rparr>"
    have P1: "P ?s1" by (rule dropped [OF "11.prems"(2)])
    show ?thesis
    proof (cases "onEventDropped s")
      case None
      with full "11.prems"(1) P1 show ?thesis by (auto simp: queueEvent.simps Let_def)
    next
      case (Some h)
      with full "11.prems"(1) obtain s' c where p: "call n h ev ?s1 = Some (s', c)"
        by (cases "call n h ev ?s1") (auto simp: queueEvent.simps Let_def)
      have "onEventDropped ?s1 = Some h" using Some by simp
      from "11.IH" [OF full refl this p P1] have "P s'" by simp
      with p Some full "11.prems"(1) show ?thesis
        by (cases c) (auto simp: queueEvent.simps Let_def)
    qed
  qed
next
  case (12 n ev s)
  show ?case
  proof (cases "listeners s (etype ev)")
    case None
    with "12.prems" show ?thesis by (auto simp: processEvent.simps)
  next
    case (Some ls)
    then have some: "listeners s (etype ev) \<noteq> None" by simp
    from Some "12.prems"(1) obtain s1 results where d: "dispatch n ev 0 [] s = Some (s1, results)"
      by (cases "dispatch n ev 0 [] s") (auto simp: processEvent.simps)
    from "12.IH"(1) [OF some d "12.prems"(2)] have "P s1" by simp
    let ?s2 = "addToHistory ev s1"
    have P2: "P ?s2" by (rule hist) fact
    show ?thesis
    proof (cases "onEventProcessed ?s2")
      case None
      with Some d P2 "12.prems"(1) show ?thesis by (auto simp: processEvent.simps Let_def)
    next
      case hook: (Some h)
      with Some d "12.prems"(1) obtain s' c where p: "call n h ev ?s2 = Some (s', c)"
        by (cases "call n h ev ?s2") (auto simp: processEvent.simps Let_def)
      from "12.IH"(2) [OF some d refl refl hook p P2] have "P s'" by simp
      with p hook Some d "12.prems"(1) show ?thesis
        by (cases c) (auto simp: processEvent.simps Let_def)
    qed
  qed
next
  case (13 ev i results s)
  then show ?case by simp
next
  case (14 n ev i results s)
  let ?ls = "getListeners (etype ev) s"
  show ?case
  proof (cases "i < length ?ls")
    case False
    with "14.prems" show ?thesis by (auto simp: Let_def)
  next
    case lt: True
    with "14.prems"(1) obtain s' c where p: "call n (callback (?ls ! i)) ev s = Some (s', c)"
      by (cases "call n (callback (?ls ! i)) ev s") (auto simp: Let_def)
    from "14.IH"(1) [OF refl lt p "14.prems"(2)] have P': "P s'" by simp
    show ?thesis
    proof (cases c)
      case Throws
      with p lt "14.prems"(1) have "dispatch n ev (Suc i) results s' = Some r6"
        by (simp add: Let_def)
      from "14.IH"(4) [OF refl lt p refl Throws this P'] show ?thesis .
    next
      case (Returns v)
      show ?thesis
      proof (cases v)
        case None
        with Returns p lt "14.prems"(1) have "dispatch n ev (Suc i) results s' = Some r6"
          by (simp add: Let_def)
        from "14.IH"(2) [OF refl lt p refl Returns None this P'] show ?thesis .
      next
        case (Some r)
        with Returns p lt "14.prems"(1)
        have "dispatch n ev (Suc i) (results @ [r]) s' = Some r6"
          by (simp add: Let_def)
        from "14.IH"(3) [OF refl lt p refl Returns Some this P'] show ?thesis .
      qed
    qed
  qed
qed

lemma drain_preserves:
  assumes step: "\<And>n ev s r. processEvent n ev s = Some r \<Longrightarrow> P s \<Longrightarrow> P (fst r)"
    and queue: "\<And>s x. P s \<Longrightarrow> P (s\<lparr>eventQueue := x\<rparr>)"
  shows "drain n c s = Some r \<Longrightarrow> P s \<Longrightarrow> P (fst r)"
proof (induction n arbitrary: c s)
  case 0
  then show ?case by simp
next
  case (Suc n)
  show ?case
  proof (cases "eventQueue s")
    case Nil
    with Suc.prems show ?thesis by auto
  next
    case (Cons ev q)
    with Suc.prems(1) obtain s' x where p: "processEvent n ev (s\<lparr>eventQueue := q\<rparr>) = Some (s', x)"
      by (cases "processEvent n ev (s\<lparr>eventQueue := q\<rparr>)") auto
    from step [OF p queue [OF Suc.prems(2)]] have P': "P s'" by simp
    show ?thesis
    proof (cases x)
      case (Returns v)
      with p Cons Suc.prems(1) have "drain n (Suc c) s' = Some r" by simp
      from Suc.IH [OF this P'] show ?thesis .
    next
      case Throws
      with p Cons Suc.prems(1) P' show ?thesis by auto
    qed
  qed
qed

subsection \<open>The history stays within its capacity\<close>

lemma histOk_addToHistory: "histOk s \<Longrightarrow> histOk (addToHistory ev s)"
  unfolding histOk_def
  by (simp add: history_addToHistory length_pushEvict) (simp add: addToHistory_def Let_def)

lemma histOk_subscribe: "histOk s \<Longrightarrow> histOk (fst (subscribe t cb p s))"
  by (auto simp: histOk_def history_def subscribe_def Let_def split: option.splits)

lemma histOk_unsubscribe: "histOk s \<Longrightarrow> histOk (fst (unsubscribe t tg s))"
  by (auto simp: histOk_def history_def unsubscribe_def split: option.splits)

lemma histOk_frame:
  "histOk (s\<lparr>calls := c\<rparr>) = histOk s"
  "histOk (s\<lparr>nextId := i\<rparr>) = histOk s"
  "histOk (s\<lparr>performance := p\<rparr>) = histOk s"
  "histOk (s\<lparr>eventQueue := q\<rparr>) = histOk s"
  "histOk (s\<lparr>processingEvents := b\<rparr>) = histOk s"
  "histOk (s\<lparr>listeners := l\<rparr>) = histOk s"
  "histOk (s\<lparr>eventTypes := ts\<rparr>) = histOk s"
  "histOk (s\<lparr>onEventProcessed := h\<rparr>) = histOk s"
  "histOk (s\<lparr>onEventDropped := h\<rparr>) = histOk s"
  "histOk (s\<lparr>isInitialized := b\<rparr>) = histOk s"
  "histOk (s\<lparr>maxQueueSize := m\<rparr>) = histOk s"
  by (simp_all add: histOk_def history_def)

lemma histOk_publish:
  assumes "publish n t d imm s = Some r" and "histOk s"
  shows "histOk (fst r)"
  by (rule interp_preserves(3) [where P = histOk, OF _ _ _ _ _ _ _ assms])
     (simp_all add: histOk_frame histOk_subscribe histOk_unsubscribe histOk_addToHistory)

lemma histOk_processEvent:
  assumes "processEvent n ev s = Some r" and "histOk s"
  shows "histOk (fst r)"
  by (rule interp_preserves(5) [where P = histOk, OF _ _ _ _ _ _ _ assms])
     (simp_all add: histOk_frame histOk_subscribe histOk_unsubscribe histOk_addToHistory)

lemma histOk_drain:
  assumes "drain n c s = Some r" and "histOk s"
  shows "histOk (fst r)"
  by (rule drain_preserves [where P = histOk, OF _ _ assms])
     (simp_all add: histOk_frame histOk_processEvent)

lemma histOk_processEvents:
  assumes "processEvents n s = Some r" and "histOk s"
  shows "histOk (fst r)"
proof (cases "processingEvents s \<or> eventQueue s = []")
  case True
  with assms show ?thesis by (auto simp: processEvents_def)
next
  case False
  with assms(1) obtain s' x where d: "drain n 0 (s\<lparr>processingEvents := True\<rparr>) = Some (s', x)"
    by (cases "drain n 0 (s\<lparr>processingEvents := True\<rparr>)") (auto simp: processEvents_def)
  from histOk_drain [OF d] assms(2) have "histOk s'" by (simp add: histOk_frame)
  with d False assms(1) show ?thesis
    by (cases x) (auto simp: processEvents_def histOk_frame)
qed

lemma histOk_alloc: "histOk s \<Longrightarrow> histOk (fst (alloc xs s))"
  by (auto simp: histOk_def history_def alloc_def)

lemma histOk_getEventHistory: "histOk s \<Longrightarrow> histOk (fst (getEventHistory t l s))"
  by (auto simp: getEventHistory_def Let_def histOk_alloc split: option.splits prod.splits
           dest: histOk_alloc [where xs = "filter (\<lambda>e. etype e = the t) (arrays s (eventHistory s))"])

lemma histOk_clearHistory: "histOk (clearHistory s)"
  by (simp add: histOk_def history_def clearHistory_def alloc_def)

lemma histOk_shutdown:
  assumes "shutdown n s = Some r" and "histOk s"
  shows "histOk (fst r)"
proof -
  from assms(1) obtain s' x where p: "processEvents n s = Some (s', x)"
    by (cases "processEvents n s") (auto simp: shutdown_def)
  from histOk_processEvents [OF p assms(2)] have "histOk s'" by simp
  with p assms(1) show ?thesis
    by (cases x) (auto simp: shutdown_def histOk_frame histOk_clearHistory)
qed

lemma histOk_apply_op:
  assumes "apply_op n x s = Some s'" and "histOk s" and "\<not> isInit x"
  shows "histOk s'"
proof (cases x)
  case (OpPublish t d imm)
  with assms show ?thesis using histOk_publish [of n t d imm s] by auto
next
  case OpProcessEvents
  with assms show ?thesis using histOk_processEvents [of n s] by auto
next
  case OpUpdate
  with assms show ?thesis using histOk_processEvents [of n s] by (auto simp: update_def)
next
  case OpShutdown
  with assms show ?thesis using histOk_shutdown [of n s] by auto
qed (use assms in \<open>auto simp: histOk_subscribe histOk_unsubscribe histOk_getEventHistory
       histOk_clearHistory histOk_frame resetPerformanceStats_def setProcessedCallback_def
       setDroppedCallback_def once_def Let_def removeAllListeners_def clearQueue_def\<close>)

lemma histOk_apply_ops:
  "apply_ops n xs s = Some s' \<Longrightarrow> histOk s \<Longrightarrow> \<forall>x \<in> set xs. \<not> isInit x \<Longrightarrow> histOk s'"
proof (induction xs arbitrary: s)
  case Nil
  then show ?case by simp
next
  case (Cons x xs)
  from Cons.prems(1) obtain s1 where a: "apply_op n x s = Some s1" "apply_ops n xs s1 = Some s'"
    by (cases "apply_op n x s") auto
  from histOk_apply_op [OF a(1) Cons.prems(2)] Cons.prems(3) have "histOk s1" by simp
  from Cons.IH [OF a(2) this] Cons.prems(3) show ?case by simp
qed

lemma histOk_fresh: "histOk (initialize q h constructor)"
  by (simp add: histOk_def history_def initialize_def constructor_def)

subsection \<open>Without hooks no exception leaves a dispatch\<close>

lemma hooksNone_frame:
  "hooksNone (s\<lparr>calls := c\<rparr>) = hooksNone s"
  "hooksNone (s\<lparr>nextId := i\<rparr>) = hooksNone s"
  "hooksNone (s\<lparr>performance := p\<rparr>) = hooksNone s"
  "hooksNone (s\<lparr>eventQueue := q\<rparr>) = hooksNone s"
  "hooksNone (s\<lparr>processingEvents := b\<rparr>) = hooksNone s"
  "hooksNone (addToHistory ev s) = hooksNone s"
  by (simp_all add: hooksNone_def addToHistory_def Let_def)

lemma hooksNone_subscribe: "hooksNone s \<Longrightarrow> hooksNone (fst (subscribe t cb p s))"
  by (auto simp: hooksNone_def subscribe_def Let_def split: option.splits)

lemma hooksNone_unsubscribe: "hooksNone s \<Longrightarrow> hooksNone (fst (unsubscribe t tg s))"
  by (auto simp: hooksNone_def unsubscribe_def split: option.splits)

lemma hooksNone_dispatch:
  assumes "dispatch n ev i res s = Some r" and "hooksNone s"
  shows "hooksNone (fst r)"
  by (rule interp_preserves(6) [where P = hooksNone, OF _ _ _ _ _ _ _ assms])
     (simp_all add: hooksNone_frame hooksNone_subscribe hooksNone_unsubscribe)

lemma hooksNone_processEvent:
  assumes "processEvent n ev s = Some r" and "hooksNone s"
  shows "hooksNone (fst r)"
  by (rule interp_preserves(5) [where P = hooksNone, OF _ _ _ _ _ _ _ assms])
     (simp_all add: hooksNone_frame hooksNone_subscribe hooksNone_unsubscribe)

lemma capacity_dispatch:
  assumes "dispatch n ev i res s = Some r" and "maxHistorySize s = k"
  shows "maxHistorySize (fst r) = k"
  by (rule interp_preserves(6) [where P = "\<lambda>s. maxHistorySize s = k", OF _ _ _ _ _ _ _ assms])
     (auto simp: subscribe_def unsubscribe_def Let_def split: option.splits)

lemma processEvent_unfold_no_hook:
  assumes "hooksNone s" and "listeners s (etype ev) \<noteq> None" and "processEvent n ev s = Some (s', c)"
  shows "\<exists>s1 results. dispatch n ev 0 [] s = Some (s1, results)
           \<and> s' = addToHistory ev s1 \<and> c = Returns (Some results)"
proof -
  from assms(2,3) obtain s1 results where d: "dispatch n ev 0 [] s = Some (s1, results)"
    by (cases "dispatch n ev 0 [] s") (auto simp: processEvent.simps)
  from hooksNone_dispatch [OF d assms(1)] have "onEventProcessed (addToHistory ev s1) = None"
    by (simp add: hooksNone_def)
  with d assms(2,3) show ?thesis by (auto simp: processEvent.simps Let_def)
qed

lemma processEvent_no_throw:
  "hooksNone s \<Longrightarrow> processEvent n ev s \<noteq> Some (s', Throws)"
proof (cases "listeners s (etype ev)")
  case None
  then show ?thesis by (simp add: processEvent.simps)
next
  case (Some ls)
  assume "hooksNone s"
  from processEvent_unfold_no_hook [OF this, of ev n s' Throws] Some show ?thesis by auto
qed

lemma processEvent_records:
  assumes "hooksNone s" and "listeners s (etype ev) \<noteq> None" and "0 < maxHistorySize s"
    and "processEvent n ev s = Some (s', c)"
  shows "history s' \<noteq> [] \<and> last (history s') = ev"
proof -
  from processEvent_unfold_no_hook [OF assms(1,2,4)] obtain s1 results where
    d: "dispatch n ev 0 [] s = Some (s1, results)" and s': "s' = addToHistory ev s1"
    by auto
  from capacity_dispatch [OF d refl] assms(3) have "0 < maxHistorySize s1" by simp
  then show ?thesis
    unfolding s' history_addToHistory by (rule last_pushEvict)
qed

lemma drain_no_throw: "hooksNone s \<Longrightarrow> drain n c s \<noteq> Some (s', Throws)"
proof (induction n arbitrary: c s)
  case 0
  then show ?case by simp
next
  case (Suc n)
  show ?case
  proof (cases "eventQueue s")
    case Nil
    then show ?thesis by simp
  next
    case (Cons ev q)
    have h0: "hooksNone (s\<lparr>eventQueue := q\<rparr>)" using Suc.prems by (simp add: hooksNone_frame)
    show ?thesis
    proof (cases "processEvent n ev (s\<lparr>eventQueue := q\<rparr>)")
      case None
      with Cons show ?thesis by simp
    next
      case (Some r)
      obtain s1 x where r: "r = (s1, x)" by (cases r)
      from processEvent_no_throw [OF h0, of n ev s1] Some r obtain v where x: "x = Returns v"
        by (cases x) auto
      from hooksNone_processEvent [OF Some h0] r have "hooksNone s1" by simp
      from Suc.IH [OF this, of "Suc c"] Some r x Cons show ?thesis by simp
    qed
  qed
qed

lemma processEvents_no_throw: "hooksNone s \<Longrightarrow> processEvents n s \<noteq> Some (s', Throws)"
  using drain_no_throw [of "s\<lparr>processingEvents := True\<rparr>" n 0 s']
  by (auto simp: processEvents_def hooksNone_frame split: option.splits completion.splits)

subsection \<open>The order of the registry\<close>

lemma getListeners_subscribe:
  "getListeners t (fst (subscribe t' cb p s)) =
     (if isInitialized s \<and> cb \<noteq> None \<and> t' \<noteq> [] \<and> t' = t
      then sortListeners (getListeners t s @ [\<lparr>callback = the cb, priority = p, lid = nextId s\<rparr>])
      else getListeners t s)"
  by (auto simp: subscribe_def getListeners_def Let_def split: option.splits)

lemma isInitialized_subscribe [simp]:
  "isInitialized (fst (subscribe t cb p s)) = isInitialized s"
  by (auto simp: subscribe_def Let_def split: option.splits)

lemma sorted_subscribe:
  "sorted (map (\<lambda>l. - priority l) (getListeners t s)) \<Longrightarrow>
   sorted (map (\<lambda>l. - priority l) (getListeners t (fst (subscribe t' cb p s))))"
  by (simp add: getListeners_subscribe sortListeners_def)

lemma sorted_subscribeAll:
  "sorted (map (\<lambda>l. - priority l) (getListeners t s)) \<Longrightarrow>
   sorted (map (\<lambda>l. - priority l) (getListeners t (subscribeAll regs s)))"
  by (induction regs s rule: subscribeAll.induct) (simp_all add: sorted_subscribe)

lemma filter_sortListeners:
  "filter (\<lambda>l. priority l = k) (sortListeners ls) = filter (\<lambda>l. priority l = k) ls"
  using sort_key_stable [of "\<lambda>l. - priority l" "- k" ls]
  by (simp add: sortListeners_def)

lemma ties_subscribeAll:
  "isInitialized s \<Longrightarrow>
   map entry (filter (\<lambda>l. priority l = k) (getListeners t (subscribeAll regs s))) =
   map entry (filter (\<lambda>l. priority l = k) (getListeners t s))
     @ filter (\<lambda>(f, p). p = k) (registered t regs)"
proof (induction regs s rule: subscribeAll.induct)
  case (1 s)
  then show ?case by simp
next
  case (2 t' cb p rest s)
  then show ?case
    by (cases cb) (auto simp: getListeners_subscribe filter_sortListeners entry_def)
qed

lemma getListeners_fresh: "getListeners t (initialize q h constructor) = []"
  by (simp add: getListeners_def initialize_def constructor_def)

subsection \<open>A drain ends on an empty queue\<close>



subsection \<open>Listeners that publish to the queue\<close>






















subsection \<open>The paths that copy\<close>

text \<open>
  The first definition of \<^verbatim>\<open>removeAllListeners\<close> removes the entry of one type and
  keeps the others. With a type filter or a positive limit, \<^verbatim>\<open>getEventHistory\<close> returns a
  new array and leaves the history as it is.
\<close>

lemma removeAllListeners_shadowed_frame:
  "listeners (removeAllListeners_shadowed t s) t = None"
  "t' \<noteq> t \<Longrightarrow> listeners (removeAllListeners_shadowed t s) t' = listeners s t'"
  by (simp_all add: removeAllListeners_shadowed_def split: option.splits)

lemma getEventHistory_filtered_is_fresh:
  assumes "histOk s" and "t \<noteq> []"
  shows "case getEventHistory (Some t) None s of
           (s', a) \<Rightarrow> a \<noteq> eventHistory s' \<and> history s' = history s
                      \<and> arrays s' a = filter (\<lambda>e. etype e = t) (history s)"
  using assms
  by (auto simp: getEventHistory_def alloc_def histOk_def history_def)

lemma getEventHistory_limited_is_fresh:
  assumes "histOk s" and "0 < n"
  shows "case getEventHistory None (Some n) s of
           (s', a) \<Rightarrow> a \<noteq> eventHistory s' \<and> history s' = history s
                      \<and> arrays s' a = lastN (nat n) (history s)"
  using assms
  by (auto simp: getEventHistory_def alloc_def histOk_def history_def slice_def lastN_def
        nat_diff_distrib' max_def)

subsection \<open>Facts about the examples\<close>

lemmas op_defs =
  initialize_def constructor_def orDefault_def subscribe_def unsubscribe_def
  setDroppedCallback_def setProcessedCallback_def sortListeners_def setAdd_def
  publish.simps queueEvent.simps Let_def

lemma busFull_facts:
  "isInitialized busFull" "maxQueueSize busFull = 3" "length (eventQueue busFull) = 3"
  "onEventDropped busFull = Some (handler 9)" "nextId busFull = 3" "calls busFull = []"
  "eventsDropped (performance busFull) = 0"
  by (simp_all add: busFull_def op_defs)

lemma busPrio_listeners:
  "map (\<lambda>l. (priority l, fid (callback l))) (getListeners ''A'' busPrio)
     = [(5, Fn 1), (5, Fn 3), (1, Fn 2), (- 2, Fn 4)]"
  by (simp add: busPrio_def handler_def op_defs getListeners_def)

lemma busPrio_facts:
  "getListeners ''A'' busPrio =
     [\<lparr>callback = handler 1, priority = 5, lid = 0\<rparr>,
      \<lparr>callback = handler 3, priority = 5, lid = 2\<rparr>,
      \<lparr>callback = handler 2, priority = 1, lid = 1\<rparr>,
      \<lparr>callback = handler 4, priority = - 2, lid = 3\<rparr>]"
  "onEventProcessed busPrio = None" "calls busPrio = []" "listeners busPrio ''A'' \<noteq> None"
  by (simp_all add: busPrio_def op_defs getListeners_def)




lemma five_events_history:
  "map_option (\<lambda>s. map edata (history s))
     (apply_ops 7 (OpSubscribe ''A'' (Some (handler 1)) 0 # fivePublishes @ [OpUpdate])
        (initialize None (Some 3) constructor))
   = Some [3, 4, 5]"
  by code_simp






section \<open>The claims\<close>

subsection \<open>C1: removing the listeners of one type\<close>

text \<open>
  C1. On the bus with a listener for type a and a listener for type b,
  \<^verbatim>\<open>removeAllListeners('a')\<close> runs the second definition of the method and leaves no
  listener for type b either, and no event type. The shadowed first definition would have
  kept the listener of type b.
\<close>

theorem removeAllListeners_clears_other_types:
  "map lid (getListeners ''b'' busAB) = [1]
   \<and> getListeners ''b'' (removeAllListeners (Some ''a'') busAB) = []
   \<and> getEventTypes (removeAllListeners (Some ''a'') busAB) = []
   \<and> map lid (getListeners ''b'' (removeAllListeners_shadowed ''a'' busAB)) = [1]"
  by (simp add: busAB_def handler_def subscribe_def initialize_def constructor_def
        getListeners_def sortListeners_def Let_def removeAllListeners_def
        removeAllListeners_shadowed_def getEventTypes_def)

subsection \<open>C2: publishing to a full queue\<close>

text \<open>
  C2, as the claim states it, fails on a bus of queue capacity 3 that is initialized and
  holds three queued events. \<^verbatim>\<open>queueEvent\<close> calls the drop callback outside any
  \<^verbatim>\<open>try\<close>: with a drop callback that throws, a publish that is not immediate counts the
  drop, invokes the callback and ends with the exception, so it returns no id. With a drop
  callback that publishes to the queue in its turn, the publish returns its id and
  \<open>eventsDropped\<close> has gone from 0 to 2, the callback having been invoked for both
  dropped events.
\<close>

theorem drop_callback_counterexample:
  "isInitialized busFullThrow \<and> maxQueueSize busFullThrow = 3
   \<and> length (eventQueue busFullThrow) = 3
   \<and> map_option (\<lambda>(s, r). (r, map fst (calls s), eventsDropped (performance s)))
        (publish 2 ''b'' 4 False busFullThrow)
      = Some (Throws, [Fn 9], 1)
   \<and> isInitialized busFullRepub \<and> maxQueueSize busFullRepub = 3
   \<and> length (eventQueue busFullRepub) = 3
   \<and> eventsDropped (performance busFullRepub) = 0
   \<and> map_option (\<lambda>(s, r). (r, map (\<lambda>(f, e). (f, edata e)) (calls s),
                             eventsDropped (performance s), length (eventQueue s)))
        (publish 3 ''b'' 0 False busFullRepub)
      = Some (Returns (RId 3), [(Fn 9, 0), (Fn 9, 1)], 2, 3)"
  by code_simp

text \<open>
  C2, amended. On an initialized bus whose queue holds \<open>maxQueueSize\<close> events (or more)
  and whose drop callback, if one is set, returns without calling the bus, a publish that
  is not immediate, of a non-empty type, drops the new event: the queue is unchanged,
  \<open>eventsDropped\<close> goes up by one and no other counter changes, the drop callback, when
  one is set, is invoked once, with the dropped event, and \<^verbatim>\<open>publish\<close> returns the id
  of the dropped event. In particular, with \<open>maxQueueSize = 3\<close>, four publishes of
  non-empty types to a newly initialized bus leave \<open>eventsDropped = 1\<close> and the first
  three events in the queue, in order.
\<close>

theorem publish_on_full_queue_drops:
  "(isInitialized s \<longrightarrow> eventType \<noteq> [] \<longrightarrow> maxQueueSize s \<le> length (eventQueue s) \<longrightarrow>
      quietHook (onEventDropped s) \<longrightarrow> 0 < n \<longrightarrow>
      (\<exists>s'. publish n eventType d False s = Some (s', Returns (RId (nextId s)))
           \<and> eventQueue s' = eventQueue s
           \<and> eventsDropped (performance s') = Suc (eventsDropped (performance s))
           \<and> eventsQueued (performance s') = eventsQueued (performance s)
           \<and> eventsProcessed (performance s') = eventsProcessed (performance s)
           \<and> calls s' = calls s @ hookCall (onEventDropped s)
                                    \<lparr>etype = eventType, edata = d, eid = nextId s\<rparr>
           \<and> history s' = history s \<and> listeners s' = listeners s))
   \<and> (t1 \<noteq> [] \<longrightarrow> t2 \<noteq> [] \<longrightarrow> t3 \<noteq> [] \<longrightarrow> t4 \<noteq> [] \<longrightarrow>
      (\<exists>s'. apply_ops m [OpPublish t1 d1 False, OpPublish t2 d2 False,
                          OpPublish t3 d3 False, OpPublish t4 d4 False]
                 (initialize (Some 3) h constructor) = Some s'
           \<and> eventsDropped (performance s') = 1
           \<and> eventQueue s' = [\<lparr>etype = t1, edata = d1, eid = 0\<rparr>,
                              \<lparr>etype = t2, edata = d2, eid = 1\<rparr>,
                              \<lparr>etype = t3, edata = d3, eid = 2\<rparr>]))"
proof (intro conjI impI)
  assume a: "isInitialized s" "eventType \<noteq> []" "maxQueueSize s \<le> length (eventQueue s)"
    "quietHook (onEventDropped s)" "0 < n"
  obtain k where n: "n = Suc k" using a(5) by (cases n) auto
  let ?s1 = "s\<lparr>nextId := Suc (nextId s)\<rparr>"
  have "maxQueueSize ?s1 \<le> length (eventQueue ?s1)" "quietHook (onEventDropped ?s1)"
    using a by simp_all
  from queueEvent_full [OF this, of k] a(1,2)
  show "\<exists>s'. publish n eventType d False s = Some (s', Returns (RId (nextId s)))
           \<and> eventQueue s' = eventQueue s
           \<and> eventsDropped (performance s') = Suc (eventsDropped (performance s))
           \<and> eventsQueued (performance s') = eventsQueued (performance s)
           \<and> eventsProcessed (performance s') = eventsProcessed (performance s)
           \<and> calls s' = calls s @ hookCall (onEventDropped s)
                                    \<lparr>etype = eventType, edata = d, eid = nextId s\<rparr>
           \<and> history s' = history s \<and> listeners s' = listeners s"
    by (simp add: n Let_def publish.simps)
next
  assume "t1 \<noteq> []" "t2 \<noteq> []" "t3 \<noteq> []" "t4 \<noteq> []"
  then show "\<exists>s'. apply_ops m [OpPublish t1 d1 False, OpPublish t2 d2 False,
                          OpPublish t3 d3 False, OpPublish t4 d4 False]
                 (initialize (Some 3) h constructor) = Some s'
           \<and> eventsDropped (performance s') = 1
           \<and> eventQueue s' = [\<lparr>etype = t1, edata = d1, eid = 0\<rparr>,
                              \<lparr>etype = t2, edata = d2, eid = 1\<rparr>,
                              \<lparr>etype = t3, edata = d3, eid = 2\<rparr>]"
    by (simp add: op_defs)
qed

theorem publish_on_full_queue_drops_witness:
  "isInitialized busFull \<and> maxQueueSize busFull \<le> length (eventQueue busFull)
   \<and> quietHook (onEventDropped busFull)
   \<and> (\<exists>s'. publish 1 ''b'' 4 False busFull = Some (s', Returns (RId 3))
          \<and> eventQueue s' = eventQueue busFull
          \<and> eventsDropped (performance s') = 1
          \<and> calls s' = [(Fn 9, \<lparr>etype = ''b'', edata = 4, eid = 3\<rparr>)])
   \<and> (\<exists>s'. apply_ops 0 [OpPublish ''a'' 1 False, OpPublish ''b'' 2 False,
                          OpPublish ''c'' 3 False, OpPublish ''d'' 4 False]
                (initialize (Some 3) None constructor) = Some s'
          \<and> eventsDropped (performance s') = 1
          \<and> map etype (eventQueue s') = [''a'', ''b'', ''c''])"
proof -
  have q: "quietHook (onEventDropped busFull)"
    by (simp add: busFull_facts quietHook_def)
  have b: "isInitialized busFull" "''b'' \<noteq> []" "maxQueueSize busFull \<le> length (eventQueue busFull)"
    "(0::nat) < 1"
    by (simp_all add: busFull_facts)
  have t: "''a'' \<noteq> []" "''c'' \<noteq> []" "''d'' \<noteq> []" by simp_all
  from publish_on_full_queue_drops [of busFull "''b''" 1 4, THEN conjunct1,
         THEN mp, OF b(1), THEN mp, OF b(2), THEN mp, OF b(3), THEN mp, OF q, THEN mp, OF b(4)]
       publish_on_full_queue_drops [of _ _ _ _ "''a''" "''b''" "''c''" "''d''" 0 1 2 3 4 None,
         THEN conjunct2, THEN mp, OF t(1), THEN mp, OF b(2), THEN mp, OF t(2), THEN mp, OF t(3)]
  show ?thesis using q b
    by (auto simp: busFull_facts hookCall_def handler_def)
qed

subsection \<open>C3: priority order\<close>

text \<open>
  C3. The registry is kept sorted (\<open>sorted_subscribeAll\<close>, \<open>ties_subscribeAll\<close>), and a
  dispatch to passive listeners follows it (\<open>processEvent_order\<close>); but the listener loop
  runs over the array that \<^verbatim>\<open>subscribe\<close> sorts in place and \<^verbatim>\<open>unsubscribe\<close> splices,
  so a dispatch does not invoke the callbacks of the sequence in order as soon as one of
  them calls either method. With the priorities 5, 1, 5, -2 registered in that order, the
  sequence is first 5, second 5, 1, -2 (tags 1, 3, 2, 4); the first listener removes
  itself, and the dispatch invokes the tags 1, 2, 4: the second listener of priority 5 is
  not invoked, though it is still registered afterwards. With two listeners of
  priority 0, the first of which registers a callback of priority 10, the dispatch invokes
  the first listener twice, then the second.
\<close>

theorem dispatch_departs_from_priority_order:
  "map (\<lambda>l. (priority l, fid (callback l))) (getListeners ''A'' busPrioSelf)
     = [(5, Fn 1), (5, Fn 3), (1, Fn 2), (- 2, Fn 4)]
   \<and> map_option (\<lambda>(s, r). (r, map fst (calls s),
                             map (\<lambda>l. fid (callback l)) (getListeners ''A'' s)))
        (publish 10 ''A'' 0 True busPrioSelf)
      = Some (Returns (RId 4), [Fn 1, Fn 2, Fn 4], [Fn 3, Fn 2, Fn 4])
   \<and> map (\<lambda>l. (priority l, fid (callback l))) (getListeners ''A'' busResub)
       = [(0, Fn 1), (0, Fn 2)]
   \<and> map_option (\<lambda>(s, r). (r, map fst (calls s),
                             map (\<lambda>l. (priority l, fid (callback l))) (getListeners ''A'' s)))
        (publish 10 ''A'' 0 True busResub)
      = Some (Returns (RId 2), [Fn 1, Fn 1, Fn 2], [(10, Fn 7), (0, Fn 1), (0, Fn 2)])"
  by code_simp

subsection \<open>C4: a drain is exhaustive\<close>




subsection \<open>C5: unsubscribing during a dispatch\<close>

text \<open>
  C5. The listener loop runs over the array that \<^verbatim>\<open>unsubscribe\<close> changes, not over a
  snapshot. On the bus with a once-listener for type A and a plain listener registered
  after it, both are registered when an event of type A is dispatched; the wrapper of the
  once-listener is invoked, removes itself and invokes its callback, and the loop ends:
  the plain listener (tag 2) is not invoked for this event and is still registered
  afterwards.
\<close>

theorem once_listener_skips_next:
  "map (\<lambda>l. fid (callback l)) (getListeners ''A'' busOnce) = [OnceWrapper 0, Fn 2]
   \<and> map_option (\<lambda>(s, r). (map fst (calls s), r, map (\<lambda>l. fid (callback l)) (getListeners ''A'' s)))
        (publish 10 ''A'' 7 True busOnce)
       = Some ([OnceWrapper 0, Fn 1], Returns (RId 2), [Fn 2])"
  by code_simp

subsection \<open>C6: immediate publish\<close>




subsection \<open>C7: the result of \<^verbatim>\<open>getEventHistory\<close>\<close>

text \<open>
  C7. Without a type filter and without a limit, \<^verbatim>\<open>getEventHistory\<close> returns the array
  of the bus itself: a \<^verbatim>\<open>push\<close> on the returned array changes the history of the bus,
  and an event that the bus adds to its history afterwards appears in the returned array.
\<close>

theorem getEventHistory_returns_internal_array:
  "history busHist = [\<lparr>etype = ''A'', edata = 7, eid = 1\<rparr>]
   \<and> (let (s, a) = getEventHistory None None busHist;
           e = \<lparr>etype = ''X'', edata = 0, eid = 99\<rparr>
       in a = eventHistory s
          \<and> history (arrayPush a e s) = [\<lparr>etype = ''A'', edata = 7, eid = 1\<rparr>, e]
          \<and> arrays (addToHistory e s) a = [\<lparr>etype = ''A'', edata = 7, eid = 1\<rparr>, e])"
  by code_simp

subsection \<open>C8: the bound of the history\<close>

text \<open>
  C8, as the claim states it, fails twice. With \<open>maxHistorySize = 3\<close> and no listener,
  five events published and drained leave the history empty, though all five count as
  processed. And \<^verbatim>\<open>initialize\<close>, called again with a smaller capacity, leaves a history
  of 2 events under a capacity of 1.
\<close>

theorem history_bound_counterexample:
  "map_option (\<lambda>s. (map edata (history s), eventQueue s, eventsProcessed (performance s),
                      maxHistorySize s))
      (apply_ops 10 (fivePublishes @ [OpUpdate]) (initialize None (Some 3) constructor))
     = Some ([], [], 5, 3)
   \<and> \<not> length (history busReinit) \<le> maxHistorySize busReinit
   \<and> length (history busReinit) = 2 \<and> maxHistorySize busReinit = 1"
  by code_simp

text \<open>
  C8, amended. On a bus initialized once, the length of the history never exceeds
  \<open>maxHistorySize\<close> after any sequence of calls other than \<^verbatim>\<open>initialize\<close>, whatever
  the callbacks do; \<^verbatim>\<open>addToHistory\<close> on a full history drops the oldest entry; with
  \<open>maxHistorySize = 3\<close> and a listener for the type, five events published and drained
  leave the last 3 in the history, in order.
\<close>

theorem history_bounded:
  "((\<forall>x \<in> set ops. \<not> isInit x) \<longrightarrow> apply_ops n ops (initialize q h constructor) = Some s \<longrightarrow>
      length (history s) \<le> maxHistorySize s)
   \<and> history (addToHistory ev s0) =
       (if length (history s0) < maxHistorySize s0 then history s0 @ [ev]
        else tl (history s0 @ [ev]))
   \<and> (7 \<le> m \<longrightarrow>
        map_option (\<lambda>s. map edata (history s))
          (apply_ops m (OpSubscribe ''A'' (Some (handler 1)) 0 # fivePublishes @ [OpUpdate])
             (initialize None (Some 3) constructor))
        = Some [3, 4, 5])"
proof (intro conjI impI)
  assume "\<forall>x \<in> set ops. \<not> isInit x" "apply_ops n ops (initialize q h constructor) = Some s"
  from histOk_apply_ops [OF this(2) histOk_fresh this(1)]
  show "length (history s) \<le> maxHistorySize s" by (simp add: histOk_def)
next
  show "history (addToHistory ev s0) =
       (if length (history s0) < maxHistorySize s0 then history s0 @ [ev]
        else tl (history s0 @ [ev]))"
    by (rule addToHistory_evicts_oldest)
next
  assume m: "7 \<le> m"
  show "map_option (\<lambda>s. map edata (history s))
          (apply_ops m (OpSubscribe ''A'' (Some (handler 1)) 0 # fivePublishes @ [OpUpdate])
             (initialize None (Some 3) constructor))
        = Some [3, 4, 5]"
  proof -
    from five_events_history obtain s1 where
      "apply_ops 7 (OpSubscribe ''A'' (Some (handler 1)) 0 # fivePublishes @ [OpUpdate])
         (initialize None (Some 3) constructor) = Some s1"
      and "map edata (history s1) = [3, 4, 5]"
      by auto
    with apply_ops_mono [OF this(1) m] show ?thesis by simp
  qed
qed

theorem history_bounded_witness:
  "list_all (\<lambda>x. \<not> isInit x) (OpSubscribe ''A'' (Some (handler 1)) 0 # fivePublishes @ [OpUpdate])
   \<and> (\<exists>s. apply_ops 7 (OpSubscribe ''A'' (Some (handler 1)) 0 # fivePublishes @ [OpUpdate])
               (initialize None (Some 3) constructor) = Some s
          \<and> length (history s) \<le> maxHistorySize s \<and> map edata (history s) = [3, 4, 5])"
proof -
  let ?ops = "OpSubscribe ''A'' (Some (handler 1)) 0 # fivePublishes @ [OpUpdate]"
  have a: "\<forall>x \<in> set ?ops. \<not> isInit x" by (simp add: fivePublishes_def)
  have le: "(7::nat) \<le> 7" by simp
  note t = history_bounded [of ?ops 7 None "Some 3" _ _ _ 7]
  from t [THEN conjunct2, THEN conjunct2, THEN mp, OF le] obtain s where
    s: "apply_ops 7 ?ops (initialize None (Some 3) constructor) = Some s"
    and h: "map edata (history s) = [3, 4, 5]"
    by auto
  from history_bounded [of ?ops 7 None "Some 3" s, THEN conjunct1, THEN mp, OF a, THEN mp, OF s]
  have b: "length (history s) \<le> maxHistorySize s" .
  have c: "list_all (\<lambda>x. \<not> isInit x) ?ops" using a by (simp add: list_all_iff)
  show ?thesis by (intro conjI exI [of _ s]) (rule c s h b)+
qed

subsection \<open>C9: a listener that throws\<close>

text \<open>
  C9. An exception of a listener callback is caught in the listener loop, and no
  exception of a listener leaves a dispatch or a drain (\<open>processEvent_no_throw\<close>,
  \<open>processEvents_no_throw\<close>); after a passive listener that throws, the remaining
  listeners are invoked (\<open>processEvents_passive\<close>). But the loop runs over the array
  that \<^verbatim>\<open>unsubscribe\<close> splices: on the bus where type A has a once-listener whose
  callback throws and, below it, a plain listener (tag 2), \<^verbatim>\<open>update\<close> invokes the
  wrapper and the callback that throws, then the listener of type B for the next event.
  The remaining listener of type A is never invoked for the event, though it is still
  registered afterwards; both events are in the history and count as processed.
\<close>

theorem throwing_once_listener_blocks_next:
  "map (\<lambda>l. (priority l, fid (callback l))) (getListeners ''A'' busOnceFaulty)
     = [(0, OnceWrapper 0), (- 1, Fn 2)]
   \<and> map edata (eventQueue busOnceFaulty) = [10, 20]
   \<and> map_option (\<lambda>(s, r). (r, map fst (calls s), map edata (history s),
                             eventsProcessed (performance s),
                             map (\<lambda>l. fid (callback l)) (getListeners ''A'' s)))
        (update 10 busOnceFaulty)
      = Some (Returns (), [OnceWrapper 0, Fn 1, Fn 3], [10, 20], 2, [Fn 2])"
  by code_simp

subsection \<open>C10: calls on a bus that is not initialized\<close>

lemma isInitialized_shutdown:
  "shutdown n s = Some (s', Returns u) \<Longrightarrow> \<not> isInitialized s'"
  by (auto simp: shutdown_def clearHistory_def alloc_def
           split: option.splits completion.splits prod.splits)

lemma shutdown_fresh:
  "shutdown n (initialize q h constructor) =
     Some (fst (the (shutdown n (initialize q h constructor))), Returns ())"
  by (simp add: shutdown_def processEvents_def initialize_def constructor_def)

text \<open>
  C10. While \<open>isInitialized\<close> is false, \<^verbatim>\<open>subscribe\<close> and \<^verbatim>\<open>publish\<close> return
  \<^verbatim>\<open>false\<close> and leave the whole bus as it was: no listener, no queued or dispatched
  event, no counter, no history entry changes. The flag is false on a new bus and on a
  bus on which \<^verbatim>\<open>shutdown\<close> has returned.
\<close>

theorem uninitialized_calls_rejected:
  "(\<not> isInitialized s \<longrightarrow>
      subscribe t cb p s = (s, RFalse) \<and> publish n t d imm s = Some (s, Returns RFalse))
   \<and> \<not> isInitialized constructor
   \<and> (shutdown m s0 = Some (s1, Returns u) \<longrightarrow> \<not> isInitialized s1)"
  using isInitialized_shutdown [of m s0 s1 u]
  by (simp add: subscribe_def constructor_def publish.simps)

theorem uninitialized_calls_rejected_witness:
  "(let s = fst (the (shutdown 1 (initialize None None constructor)))
    in \<not> isInitialized s \<and>
       subscribe ''a'' (Some (handler 0)) 0 s = (s, RFalse) \<and>
       publish 1 ''a'' 0 False s = Some (s, Returns RFalse))"
  using uninitialized_calls_rejected
          [of "fst (the (shutdown 1 (initialize None None constructor)))"
              "''a''" "Some (handler 0)" 0 1 0 False
              1 "initialize None None constructor"
              "fst (the (shutdown 1 (initialize None None constructor)))" "()"]
        shutdown_fresh [of 1 None None]
  by (simp add: Let_def)

end
